theory Spec2Isabelle
  imports Main
begin

section \<open>Abstract syntax\<close>

text \<open>
  The module \<^verbatim>\<open>Ast\<close> of \<^verbatim>\<open>regex.ts\<close> declares the tagged union
  \<^verbatim>\<open>Node = Atom | Seq | Alt | Star\<close>. An atom carries a string (one character, or
  the empty string for epsilon), a sequence and an alternation carry an array of
  nodes, a star carries one node. Strings are lists of characters. (The source
  reads the pattern by \<^verbatim>\<open>charAt\<close>, one UTF-16 code unit at a time, and the input
  of \<^verbatim>\<open>match\<close> by code point; the two agree on every character of the Basic
  Multilingual Plane, and the model has the one type \<^typ>\<open>char\<close> for both.)
\<close>

datatype node = Atom string | Seq "node list" | Alt "node list" | Star node

datatype error = NotEverythingConsumed | EmptyParens | StarWithoutThing | TerminationTooEarly

text \<open>
  The four values of \<^typ>\<open>error\<close> are the four strings thrown by \<^verbatim>\<open>parse\<close>:
  \<^verbatim>\<open>'not everything consumed'\<close>, \<^verbatim>\<open>'empty parens'\<close>, \<^verbatim>\<open>'star without thing'\<close> and
  \<^verbatim>\<open>'termination too early'\<close>. The fifth throw, \<^verbatim>\<open>'unexpected ast type'\<close> in
  \<^verbatim>\<open>simplify\<close>, sits behind an exhaustive test of the tag and has no input.
\<close>

section \<open>Simplification\<close>

text \<open>
  \<^verbatim>\<open>simplify\<close> (lines 125--157). The two \<^verbatim>\<open>for\<close> loops that push
  \<^verbatim>\<open>simplify(c)\<close> for every child are \<^const>\<open>map\<close>. In the sequence case the
  rebuilt node with exactly one child is answered by a second call of \<^verbatim>\<open>simplify\<close> on
  that (already simplified) child, a nested recursion. In the star case the code
  builds \<^verbatim>\<open>new Ast.Star(simplify(node.v))\<close> and, when the child \<^verbatim>\<open>node.v\<close> of the new
  node is itself a star, returns \<^verbatim>\<open>node.v.v\<close>: the child of that inner star.
\<close>

function simplify :: "node \<Rightarrow> node" where
  "simplify (Seq v) =
     (let newV = map simplify v in
      if length newV = 1 then simplify (newV ! 0)
      else if length newV = 0 then Atom []
      else Seq newV)"
| "simplify (Alt v) = Alt (map simplify v)"
| "simplify (Star v) =
     (case simplify v of
        Star w \<Rightarrow> w
      | n \<Rightarrow> Star n)"
| "simplify (Atom v) = Atom v"
  by pat_completeness auto

lemma size_list_map_le:
  "(\<And>x. x \<in> set v \<Longrightarrow> size (f x) \<le> size x) \<Longrightarrow> size_list size (map f v) \<le> size_list size v"
  by (induction v) (auto simp: add_mono)

lemma simplify_size_dom: "simplify_dom n \<Longrightarrow> size (simplify n) \<le> size n"
proof (induction n rule: simplify.pinduct)
  case (1 v)
  show ?case
  proof (cases v)
    case Nil
    with 1 show ?thesis by (simp add: simplify.psimps)
  next
    case (Cons a w)
    note av = this
    show ?thesis
    proof (cases w)
      case Nil
      with av 1 have "size (simplify (simplify a)) \<le> size (simplify a)" "size (simplify a) \<le> size a"
        by auto
      with av Nil 1(1) show ?thesis by (simp add: simplify.psimps)
    next
      case (Cons b u)
      have "size_list size (map simplify v) \<le> size_list size v"
        using 1(2) by (rule size_list_map_le)
      with av Cons 1(1) show ?thesis by (simp add: simplify.psimps)
    qed
  qed
next
  case (2 v)
  have "size_list size (map simplify v) \<le> size_list size v"
    using 2(2) by (rule size_list_map_le)
  with 2(1) show ?case by (simp add: simplify.psimps)
next
  case (3 v)
  then show ?case by (auto simp: simplify.psimps split: node.splits)
next
  case (4 v)
  then show ?case by (simp add: simplify.psimps)
qed

termination simplify
proof (relation "measure size", goal_cases)
  case 1
  show ?case by simp
next
  case (2 v x)
  then show ?case by (simp add: less_Suc_eq_le size_list_estimation')
next
  case (3 v x)
  then obtain a where "v = [a]" by (cases v) auto
  with 3 show ?case using simplify_size_dom[of a] by simp
next
  case (4 v x)
  then show ?case by (simp add: less_Suc_eq_le size_list_estimation')
next
  case (5 v)
  then show ?case by simp
qed

text \<open>
  The shape that simplification is meant to establish, as a predicate on trees:
  at every depth a sequence has at least two children, and the child of a star
  is not a star.
\<close>

fun simplified :: "node \<Rightarrow> bool" where
  "simplified (Atom v) = True"
| "simplified (Seq v) = (2 \<le> length v \<and> list_all simplified v)"
| "simplified (Alt v) = list_all simplified v"
| "simplified (Star v) = ((case v of Star w \<Rightarrow> False | _ \<Rightarrow> True) \<and> simplified v)"

section \<open>Parsing\<close>

text \<open>
  \<^verbatim>\<open>p\<close> (lines 87--123) scans the string \<^verbatim>\<open>s\<close> of the enclosing \<^verbatim>\<open>parse\<close> from index
  \<^verbatim>\<open>i\<close>. Its three local variables are the arguments of the loop:
  \<^item> \<open>alt\<close>: the alternatives closed so far by \<^verbatim>\<open>|\<close>, each a finished \<^verbatim>\<open>Seq\<close> object.
    The array \<^verbatim>\<open>alt.v\<close> of the source is \<open>alt @ [Seq seq]\<close>: its last element is
    always the very object \<^verbatim>\<open>seq\<close> that is still being filled;
  \<^item> \<open>seq\<close>: the array \<^verbatim>\<open>seq.v\<close> of the current alternative;
  \<^item> \<open>node\<close>: the variable \<^verbatim>\<open>node\<close>, \<^verbatim>\<open>null\<close> being \<^const>\<open>None\<close>.

  The assignment \<^verbatim>\<open>seq.v[seq.v.length - 1] = node\<close> replaces the last element; on an
  empty array it writes the property \<^verbatim>\<open>-1\<close>, which is no element and leaves the
  length at zero, so the array stays empty. A \<^verbatim>\<open>throw\<close> is \<^const>\<open>Inl\<close>.
\<close>

function p_loop ::
  "string \<Rightarrow> nat \<Rightarrow> node list \<Rightarrow> node list \<Rightarrow> node option \<Rightarrow> error + nat \<times> node" where
  "p_loop s i alt seq node =
     (if i < length s then
        (let c = s ! i in
         if c = CHR ''('' then
           (case p_loop s (i + 1) [] [] None of
              Inl e \<Rightarrow> Inl e
            | Inr (j, n) \<Rightarrow> p_loop s (j + 1) alt (seq @ [n]) (Some n))
         else if c = CHR '')'' then
           (if length (alt @ [Seq seq]) > 1 then Inr (i, Alt (alt @ [Seq seq]))
            else if length seq > 1 then Inr (i, Seq seq)
            else (case node of
                    Some n \<Rightarrow> Inr (i, n)
                  | None \<Rightarrow> Inl EmptyParens))
         else if c = CHR ''*'' then
           (case node of
              Some n \<Rightarrow>
                p_loop s (i + 1) alt
                  (if seq = [] then seq else seq[length seq - 1 := Star n])
                  (Some (Star n))
            | None \<Rightarrow> Inl StarWithoutThing)
         else if c = CHR ''|'' then p_loop s (i + 1) (alt @ [Seq seq]) [] node
         else p_loop s (i + 1) alt (seq @ [Atom [c]]) (Some (Atom [c])))
      else Inl TerminationTooEarly)"
  by pat_completeness auto

text \<open>
  A call that returns, returns the index of a closing parenthesis at or after
  its own start; this is what makes the scan after a nested group advance.
\<close>

lemma p_loop_position_dom:
  "p_loop_dom (s, i, alt, seq, node) \<Longrightarrow> p_loop s i alt seq node = Inr (j, n) \<Longrightarrow>
     i \<le> j \<and> j < length s"
proof (induction s i alt seq node arbitrary: j n rule: p_loop.pinduct)
  case (1 s i alt seq node)
  from "1.prems" "1.hyps" have lt: "i < length s"
    by (simp add: p_loop.psimps split: if_splits)
  show ?case
  proof (cases "s ! i = CHR ''(''")
    case True
    with lt "1.prems" "1.hyps" obtain j0 n0 where
      inner: "p_loop s (i + 1) [] [] None = Inr (j0, n0)" and
      outer: "p_loop s (j0 + 1) alt (seq @ [n0]) (Some n0) = Inr (j, n)"
      by (auto simp: p_loop.psimps split: sum.splits)
    from "1.IH"(1)[OF lt refl True inner] have "i + 1 \<le> j0" by simp
    moreover from "1.IH"(2)[OF lt refl True inner refl outer]
    have "j0 + 1 \<le> j \<and> j < length s" .
    ultimately show ?thesis by simp
  next
    case False
    note nopen = this
    show ?thesis
    proof (cases "s ! i = CHR '')''")
      case True
      with lt nopen "1.prems" "1.hyps" show ?thesis
        by (auto simp: p_loop.psimps split: if_splits option.splits)
    next
      case False
      note nclose = this
      show ?thesis
      proof (cases "s ! i = CHR ''*''")
        case True
        with lt nopen nclose "1.prems" "1.hyps" obtain m where
          nd: "node = Some m" and
          r: "p_loop s (i + 1) alt
                (if seq = [] then seq else seq[length seq - 1 := Star m]) (Some (Star m))
              = Inr (j, n)"
          by (auto simp: p_loop.psimps split: option.splits)
        from "1.IH"(3)[OF lt refl nopen nclose True nd r] show ?thesis by simp
      next
        case False
        note nstar = this
        show ?thesis
        proof (cases "s ! i = CHR ''|''")
          case True
          with lt nopen nclose nstar "1.prems" "1.hyps" have
            r: "p_loop s (i + 1) (alt @ [Seq seq]) [] node = Inr (j, n)"
            by (auto simp: p_loop.psimps Let_def)
          from "1.IH"(4)[OF lt refl nopen nclose nstar True r] show ?thesis by simp
        next
          case False
          with lt nopen nclose nstar "1.prems" "1.hyps" have
            r: "p_loop s (i + 1) alt (seq @ [Atom [s ! i]]) (Some (Atom [s ! i])) = Inr (j, n)"
            by (auto simp: p_loop.psimps Let_def)
          from "1.IH"(5)[OF lt refl nopen nclose nstar False r] show ?thesis by simp
        qed
      qed
    qed
  qed
qed

termination p_loop
proof (relation "measure (\<lambda>(s, i, alt, seq, node). length s - i)", goal_cases)
  case 1
  show ?case by simp
next
  case (2 s i alt seq node x)
  then show ?case by simp
next
  case (3 s i alt seq node x x2 xa y)
  then show ?case using p_loop_position_dom[of s "i + 1" "[]" "[]" None xa y] by auto
next
  case (4 s i alt seq node x x2)
  then show ?case by simp
next
  case (5 s i alt seq node x)
  then show ?case by simp
next
  case (6 s i alt seq node x)
  then show ?case by simp
qed

declare p_loop.simps [simp del]

text \<open>
  \<^verbatim>\<open>p(i)\<close> enters the loop with \<^verbatim>\<open>node = null\<close>, \<^verbatim>\<open>seq = new Ast.Seq([])\<close> and
  \<^verbatim>\<open>alt = new Ast.Alt([seq])\<close>. \<^verbatim>\<open>parse\<close> (lines 79--85) appends the closing
  parenthesis, runs \<^verbatim>\<open>p(0)\<close>, and simplifies the node when the position returned is
  the last index.
\<close>

definition p :: "string \<Rightarrow> nat \<Rightarrow> error + nat \<times> node" where
  "p s i = p_loop s i [] [] None"

definition parse :: "string \<Rightarrow> error + node" where
  "parse s0 =
     (let s = s0 @ '')'' in
      case p s 0 of
        Inl e \<Rightarrow> Inl e
      | Inr (lastPosition, node) \<Rightarrow>
          if lastPosition \<noteq> length s - 1 then Inl NotEverythingConsumed
          else Inr (simplify node))"

text \<open>
  Vocabulary for statements about the scan. A character is special when one of
  the first four branches of the loop tests for it; every other character is an
  atom.
\<close>

definition special :: "char \<Rightarrow> bool" where
  "special c = (c = CHR ''('' \<or> c = CHR '')'' \<or> c = CHR ''*'' \<or> c = CHR ''|'')"

text \<open>
  \<open>unclosed cs d\<close> counts parentheses the usual way: starting with \<open>d\<close> groups
  open, it is the number of groups still open after \<open>cs\<close>, and \<^const>\<open>None\<close> when
  some closing parenthesis of \<open>cs\<close> has no opening one to match. A pattern \<open>s\<close> with
  \<open>unclosed s 0 = Some (Suc d)\<close> has \<open>d + 1\<close> opening parentheses that are never
  closed; one with \<open>unclosed s 0 = Some 0\<close> is balanced.
\<close>

fun unclosed :: "string \<Rightarrow> nat \<Rightarrow> nat option" where
  "unclosed [] d = Some d"
| "unclosed (c # cs) d =
     (if c = CHR ''('' then unclosed cs (Suc d)
      else if c = CHR '')'' then (case d of 0 \<Rightarrow> None | Suc d' \<Rightarrow> unclosed cs d')
      else unclosed cs d)"

text \<open>The characters of \<open>s\<close> from index \<open>i\<close> up to, not including, index \<open>j\<close>.\<close>

definition seg :: "string \<Rightarrow> nat \<Rightarrow> nat \<Rightarrow> string" where
  "seg s i j = take (j - i) (drop i s)"

text \<open>
  The state in which the branch for a closing parenthesis returns a node: there
  is more than one alternative, or more than one term, or \<^verbatim>\<open>node\<close> is not
  \<^verbatim>\<open>null\<close>.
\<close>

definition closable :: "node list \<Rightarrow> node list \<Rightarrow> node option \<Rightarrow> bool" where
  "closable a q n = (a \<noteq> [] \<or> length q > 1 \<or> n \<noteq> None)"

section \<open>The automaton\<close>

text \<open>
  The module \<^verbatim>\<open>Nfa\<close> has nodes with an array \<^verbatim>\<open>ds\<close> of outgoing edges, and edges
  with a label \<^verbatim>\<open>v\<close> (one character, or the empty string for an epsilon edge) and
  a target node \<^verbatim>\<open>t\<close>. Nodes are objects: they are compared by identity and
  mutated in place by \<^verbatim>\<open>ds.push\<close>, and stars make the graph cyclic. The model is a
  store: a node is its index in the list of all nodes allocated so far, and the
  entry at that index is its array \<^verbatim>\<open>ds\<close>. \<^verbatim>\<open>new Nfa.Node()\<close> appends an empty
  entry and yields its index; \<^verbatim>\<open>n.ds.push(e)\<close> appends \<open>e\<close> to entry \<open>n\<close>.
\<close>

datatype edge = Edge (edge_v: string) (edge_t: nat)

type_synonym nfa = "edge list list"

text \<open>
  Every reference of the source points to an allocated node. An index outside
  the store is no node of the source; it is read as a node without edges.
\<close>

definition ds :: "nfa \<Rightarrow> nat \<Rightarrow> edge list" where
  "ds g n = (if n < length g then g ! n else [])"

definition push_edge :: "nat \<Rightarrow> edge \<Rightarrow> nfa \<Rightarrow> nfa" where
  "push_edge n e g = g[n := g ! n @ [e]]"

text \<open>
  \<^verbatim>\<open>makeEdge\<close> (lines 166--186), threading the store. In the sequence case
  \<^verbatim>\<open>range(ast.v.length - 1).map(_ => new Nfa.Node())\<close> allocates one node less than
  there are children, all of them before the first child is built (for no
  children \<^verbatim>\<open>range(-1)\<close> is empty, as is the truncated difference here), and
  \<open>makeEdge_seq\<close> is the loop over \<^verbatim>\<open>zip(ast.v, nextNodes)\<close>, which ends with the
  shorter of the two arrays. \<open>makeEdge_alt\<close> is the loop of the alternation case.
  The variable \<^verbatim>\<open>last\<close> is \<open>lastN\<close> and the parameter \<^verbatim>\<open>end\<close> is \<open>endN\<close>.
\<close>

function makeEdge :: "node \<Rightarrow> nat \<Rightarrow> nat \<Rightarrow> nfa \<Rightarrow> nfa"
  and makeEdge_seq :: "node list \<Rightarrow> nat list \<Rightarrow> nat \<Rightarrow> nfa \<Rightarrow> nfa"
  and makeEdge_alt :: "node list \<Rightarrow> nat \<Rightarrow> nat \<Rightarrow> nfa \<Rightarrow> nfa" where
  "makeEdge (Seq v) start endN g =
     (let nextNodes = [length g ..< length g + (length v - 1)] @ [endN];
          g1 = g @ replicate (length v - 1) []
      in makeEdge_seq v nextNodes start g1)"
| "makeEdge (Alt v) start endN g = makeEdge_alt v start endN g"
| "makeEdge (Star v) start endN g =
     (let middle = length g;
          g1 = g @ [[]];
          g2 = push_edge start (Edge [] middle) g1;
          g3 = makeEdge v middle middle g2
      in push_edge middle (Edge [] endN) g3)"
| "makeEdge (Atom v) start endN g = push_edge start (Edge v endN) g"
| "makeEdge_seq (astChild # v) (next # nextNodes) lastN g =
     makeEdge_seq v nextNodes next (makeEdge astChild lastN next g)"
| "makeEdge_seq [] nextNodes lastN g = g"
| "makeEdge_seq (astChild # v) [] lastN g = g"
| "makeEdge_alt [] start endN g = g"
| "makeEdge_alt (n # v) start endN g = makeEdge_alt v start endN (makeEdge n start endN g)"
  by pat_completeness auto

termination
  by (relation "measure (\<lambda>x. case x of
        Inl (ast, _) \<Rightarrow> 2 * size ast
      | Inr (Inl (v, _)) \<Rightarrow> 2 * size_list size v + 1
      | Inr (Inr (v, _)) \<Rightarrow> 2 * size_list size v + 1)") auto

text \<open>
  \<^verbatim>\<open>makeNfa\<close> (lines 160--164) allocates the start node and the end node, in
  this order, in an empty store, and returns the start node; the model returns
  the store with it.
\<close>

definition makeNfa :: "node \<Rightarrow> nat \<times> nfa" where
  "makeNfa ast = (0, makeEdge ast 0 1 [[], []])"

section \<open>Matching\<close>

text \<open>
  \<^verbatim>\<open>addNodeToSet\<close> (lines 209--218) recurses through epsilon edges, and the graph
  may be cyclic. The model counts the depth of the recursion: \<open>fuel\<close> is the
  number of nested calls still allowed, and \<^const>\<open>None\<close> is the answer of a call
  that would need more. A \<^verbatim>\<open>Set<Nfa.Node>\<close> iterates in insertion order, so it is
  the list of its elements in that order; \<^verbatim>\<open>set.add(n)\<close> happens only after
  \<^verbatim>\<open>set.has(n)\<close> failed and appends. \<open>addNodeToSet_edges\<close> is the loop over
  \<^verbatim>\<open>n.ds\<close>.
\<close>

function addNodeToSet :: "nat \<Rightarrow> nfa \<Rightarrow> nat list \<Rightarrow> nat \<Rightarrow> nat list option"
  and addNodeToSet_edges :: "nat \<Rightarrow> nfa \<Rightarrow> nat list \<Rightarrow> edge list \<Rightarrow> nat list option" where
  "addNodeToSet 0 g ns n = None"
| "addNodeToSet (Suc fuel) g ns n =
     (if n \<notin> set ns then addNodeToSet_edges fuel g (ns @ [n]) (ds g n) else Some ns)"
| "addNodeToSet_edges fuel g ns [] = Some ns"
| "addNodeToSet_edges fuel g ns (e # es) =
     (if edge_v e = [] then
        (case addNodeToSet fuel g ns (edge_t e) of
           None \<Rightarrow> None
         | Some ns' \<Rightarrow> addNodeToSet_edges fuel g ns' es)
      else addNodeToSet_edges fuel g ns es)"
  by pat_completeness auto

termination
  by (relation "inv_image (less_than <*lex*> less_than) (\<lambda>x. case x of
        Inl (fuel, _) \<Rightarrow> (2 * fuel, 0)
      | Inr (fuel, _, _, es) \<Rightarrow> (2 * fuel + 1, length es))") auto

text \<open>
  \<^verbatim>\<open>match\<close> (lines 189--208). \<open>match_edges\<close> is the innermost loop over the edges
  of one node, \<open>match_nodes\<close> the loop over the current set, \<open>match_chars\<close> the
  loop over the characters of the input. The last loop answers whether some
  node of the final set has \<^verbatim>\<open>ds.length === 0\<close>. The automaton is given as the pair
  of its start node and the store.
\<close>

fun match_edges :: "nat \<Rightarrow> nfa \<Rightarrow> char \<Rightarrow> nat list \<Rightarrow> edge list \<Rightarrow> nat list option" where
  "match_edges fuel g c newNs [] = Some newNs"
| "match_edges fuel g c newNs (e # es) =
     (if [c] = edge_v e then
        (case addNodeToSet fuel g newNs (edge_t e) of
           None \<Rightarrow> None
         | Some newNs' \<Rightarrow> match_edges fuel g c newNs' es)
      else match_edges fuel g c newNs es)"

fun match_nodes :: "nat \<Rightarrow> nfa \<Rightarrow> char \<Rightarrow> nat list \<Rightarrow> nat list \<Rightarrow> nat list option" where
  "match_nodes fuel g c newNs [] = Some newNs"
| "match_nodes fuel g c newNs (n # ns) =
     (case match_edges fuel g c newNs (ds g n) of
        None \<Rightarrow> None
      | Some newNs' \<Rightarrow> match_nodes fuel g c newNs' ns)"

fun match_chars :: "nat \<Rightarrow> nfa \<Rightarrow> nat list \<Rightarrow> string \<Rightarrow> nat list option" where
  "match_chars fuel g ns [] = Some ns"
| "match_chars fuel g ns (c # str) =
     (case match_nodes fuel g c [] ns of
        None \<Rightarrow> None
      | Some newNs \<Rightarrow> match_chars fuel g newNs str)"

definition match :: "nat \<Rightarrow> nat \<times> nfa \<Rightarrow> string \<Rightarrow> bool option" where
  "match fuel nfa str =
     (case nfa of (startNode, g) \<Rightarrow>
        (case addNodeToSet fuel g [] startNode of
           None \<Rightarrow> None
         | Some ns0 \<Rightarrow>
             (case match_chars fuel g ns0 str of
                None \<Rightarrow> None
              | Some ns \<Rightarrow> Some (list_ex (\<lambda>n. length (ds g n) = 0) ns))))"

section \<open>Vocabulary for the properties of the automaton\<close>

text \<open>
  \<open>path g u w r\<close>: in the store \<open>g\<close> there is a walk from node \<open>u\<close> to node \<open>r\<close>
  whose consuming edges spell exactly the string \<open>w\<close>, with any number of epsilon
  edges in between. This is what it means for the whole of \<open>w\<close> to be consumed
  on the way from \<open>u\<close> to \<open>r\<close>.
\<close>

inductive path :: "nfa \<Rightarrow> nat \<Rightarrow> string \<Rightarrow> nat \<Rightarrow> bool" for g :: nfa where
  path_nil: "path g u [] u"
| path_eps: "Edge [] q \<in> set (ds g u) \<Longrightarrow> path g q w r \<Longrightarrow> path g u w r"
| path_chr: "Edge [c] q \<in> set (ds g u) \<Longrightarrow> path g q w r \<Longrightarrow> path g u (c # w) r"

text \<open>
  The number of allocated nodes not yet in the visited list; the targets of the
  edges of a list that carry a given label; the nodes reached from a list of
  nodes by one edge labelled with a character.
\<close>

definition unvisited :: "nfa \<Rightarrow> nat list \<Rightarrow> nat" where
  "unvisited g ns = card ({..<length g} - set ns)"

definition targets :: "string \<Rightarrow> edge list \<Rightarrow> nat set" where
  "targets l es = edge_t ` {e \<in> set es. edge_v e = l}"

definition step_targets :: "nfa \<Rightarrow> char \<Rightarrow> nat list \<Rightarrow> nat set" where
  "step_targets g c ns = (\<Union>n\<in>set ns. targets [c] (ds g n))"

text \<open>
  A set of nodes is closed when it contains the target of every epsilon edge
  that leaves one of its members. \<open>grows g R ns ns'\<close> relates the visited list
  before and after a closure computation started from the roots \<open>R\<close>: nothing is
  lost, the roots are in, every new node is reached from a root by epsilon edges,
  the epsilon successors of every new node are in, and no node is entered twice.
\<close>

definition eps_closed :: "nfa \<Rightarrow> nat set \<Rightarrow> bool" where
  "eps_closed g S = (\<forall>u\<in>S. \<forall>e\<in>set (ds g u). edge_v e = [] \<longrightarrow> edge_t e \<in> S)"

definition grows :: "nfa \<Rightarrow> nat set \<Rightarrow> nat list \<Rightarrow> nat list \<Rightarrow> bool" where
  "grows g R ns ns' =
     (set ns \<subseteq> set ns' \<and> R \<subseteq> set ns'
      \<and> (\<forall>q\<in>set ns' - set ns. \<exists>r\<in>R. path g r [] q)
      \<and> (\<forall>u\<in>set ns' - set ns. \<forall>e\<in>set (ds g u). edge_v e = [] \<longrightarrow> edge_t e \<in> set ns')
      \<and> (distinct ns \<longrightarrow> distinct ns'))"

text \<open>
  Two shapes of trees. \<open>alts_ok\<close> is what the parser guarantees on its own: an
  atom holds at most one character and an alternation has a child. \<open>buildable\<close>
  asks a child of every sequence as well.
\<close>

fun alts_ok :: "node \<Rightarrow> bool" where
  "alts_ok (Atom v) = (length v \<le> 1)"
| "alts_ok (Seq v) = list_all alts_ok v"
| "alts_ok (Alt v) = (v \<noteq> [] \<and> list_all alts_ok v)"
| "alts_ok (Star v) = alts_ok v"

fun buildable :: "node \<Rightarrow> bool" where
  "buildable (Atom v) = (length v \<le> 1)"
| "buildable (Seq v) = (v \<noteq> [] \<and> list_all buildable v)"
| "buildable (Alt v) = (v \<noteq> [] \<and> list_all buildable v)"
| "buildable (Star v) = buildable v"

text \<open>
  Two relations between the store before and after a construction step.
  \<open>ext g M g'\<close>: nodes are only added; an old node outside \<open>M\<close> keeps its edges;
  an old node with an edge still has one; every added node has an edge.
  \<open>keeps g g'\<close>: nodes are only added and every old node keeps its edges as a
  prefix of its new ones.
\<close>

definition ext :: "nfa \<Rightarrow> nat set \<Rightarrow> nfa \<Rightarrow> bool" where
  "ext g M g' =
     (length g \<le> length g'
      \<and> (\<forall>n<length g. n \<notin> M \<longrightarrow> g' ! n = g ! n)
      \<and> (\<forall>n<length g. g ! n \<noteq> [] \<longrightarrow> g' ! n \<noteq> [])
      \<and> (\<forall>n. length g \<le> n \<and> n < length g' \<longrightarrow> g' ! n \<noteq> []))"

definition keeps :: "nfa \<Rightarrow> nfa \<Rightarrow> bool" where
  "keeps g g' = (length g \<le> length g' \<and> (\<forall>n<length g. \<exists>es. g' ! n = g ! n @ es))"

section \<open>Properties of simplification\<close>

lemma simplified_simplify: "simplified (simplify t)"
proof (induction t rule: simplify.induct)
  case (1 v)
  show ?case
  proof (cases "length v = 1")
    case True
    with 1(2)[OF refl] show ?thesis by simp
  next
    case False
    with 1(1) show ?thesis by (cases v) (auto simp: list_all_iff Suc_le_eq)
  qed
next
  case (2 v)
  then show ?case by (simp add: list_all_iff)
next
  case (3 v)
  then show ?case by (cases "simplify v") auto
next
  case (4 v)
  show ?case by simp
qed

lemma simplify_fixes_simplified: "simplified t \<Longrightarrow> simplify t = t"
proof (induction t rule: simplify.induct)
  case (1 v)
  from 1(3) have len: "2 \<le> length v" and all: "\<forall>x\<in>set v. simplified x"
    by (simp_all add: list_all_iff)
  from 1(1) all have "map simplify v = v" by (simp add: map_idI)
  with len show ?case by auto
next
  case (2 v)
  from 2(2) have "\<forall>x\<in>set v. simplified x" by (simp add: list_all_iff)
  with 2(1) have "map simplify v = v" by (simp add: map_idI)
  then show ?case by simp
next
  case (3 v)
  then show ?case by (cases v) auto
next
  case (4 v)
  show ?case by simp
qed

text \<open>
  C1. The claim is that \<^verbatim>\<open>simplify(Star(Star(x)))\<close> equals \<^verbatim>\<open>simplify(Star(x))\<close>, a
  doubly nested star collapsing to a single star and never losing the repetition.
  The code returns \<^verbatim>\<open>node.v.v\<close> where the collapsed star would be \<^verbatim>\<open>node.v\<close>: on
  \<^verbatim>\<open>Star(Star(Atom('a')))\<close> the result is the bare atom, while \<^verbatim>\<open>Star(Atom('a'))\<close>
  simplifies to itself. The pattern \<^verbatim>\<open>a**\<close> parses to the atom alone.
\<close>

theorem simplify_star_star_drops_both:
  "simplify (Star (Star (Atom ''a''))) = Atom ''a''
   \<and> simplify (Star (Atom ''a'')) = Star (Atom ''a'')
   \<and> simplify (Star (Star (Atom ''a''))) \<noteq> simplify (Star (Atom ''a''))
   \<and> parse ''a**'' = Inr (Atom ''a'')"
  by (simp add: parse_def p_def p_loop.simps)

text \<open>
  The loss is not particular to this input: two stars around any tree simplify
  to what the tree alone simplifies to, which a single star never does.
\<close>

lemma simplify_star_star: "simplify (Star (Star x)) = simplify x"
proof (cases "simplify x")
  case (Star w)
  with simplified_simplify[of x] have "case w of Star u \<Rightarrow> False | _ \<Rightarrow> True" by simp
  with Star show ?thesis by (cases w) auto
qed auto

lemma simplify_star_differs: "simplify (Star x) \<noteq> simplify x"
proof (cases "simplify x")
  case (Star w)
  have "size (Star w) = Suc (size w)" by simp
  then have "w \<noteq> Star w" by (metis n_not_Suc_n)
  with Star show ?thesis by simp
qed auto

text \<open>
  C6. For every tree \<open>t\<close>, in \<^verbatim>\<open>simplify(t)\<close> every sequence has at least two
  children and no star has a star as its direct child. (A sequence of one child
  has been replaced by the simplified child, an empty one by the epsilon atom.)
\<close>

theorem simplify_establishes_shape: "simplified (simplify t)"
  by (rule simplified_simplify)

theorem simplify_establishes_shape_witness:
  "simplified (simplify (Seq [Seq [Star (Star (Star (Atom ''a'')))], Seq [], Alt [Seq [Atom ''b'']]]))"
  by (rule simplify_establishes_shape)

text \<open>
  C7. \<^verbatim>\<open>simplify\<close> is idempotent: simplifying a simplified tree gives the same
  tree.
\<close>

theorem simplify_idempotent: "simplify (simplify t) = simplify t"
  by (rule simplify_fixes_simplified) (rule simplified_simplify)

text \<open>
  C8. \<^verbatim>\<open>simplify\<close> never collapses an alternation: an alternation of any arity is
  rebuilt with its children simplified, and in particular
  \<^verbatim>\<open>simplify(Alt([x]))\<close> is \<^verbatim>\<open>Alt([simplify(x)])\<close>, not \<^verbatim>\<open>simplify(x)\<close>.
\<close>

theorem simplify_alt_not_collapsed:
  "simplify (Alt [x]) = Alt [simplify x]
   \<and> simplify (Alt v) = Alt (map simplify v)
   \<and> simplify (Alt [x]) \<noteq> simplify x"
proof -
  have "size (Alt [simplify x]) = Suc (Suc (size (simplify x)))" by simp
  then have "Alt [simplify x] \<noteq> simplify x" by (metis Suc_n_not_le_n le_SucI order_refl)
  then show ?thesis by simp
qed

section \<open>Properties of the parser\<close>

subsection \<open>The loop, one character at a time\<close>

lemma p_loop_end: "\<not> i < length s \<Longrightarrow> p_loop s i a q n = Inl TerminationTooEarly"
  by (simp add: p_loop.simps)

lemma p_loop_open:
  "i < length s \<Longrightarrow> s ! i = CHR ''('' \<Longrightarrow>
   p_loop s i a q n =
     (case p_loop s (Suc i) [] [] None of
        Inl e \<Rightarrow> Inl e
      | Inr (j, m) \<Rightarrow> p_loop s (Suc j) a (q @ [m]) (Some m))"
  by (subst p_loop.simps) (simp split: sum.splits prod.splits)

lemma p_loop_close:
  "i < length s \<Longrightarrow> s ! i = CHR '')'' \<Longrightarrow>
   p_loop s i a q n =
     (if a \<noteq> [] then Inr (i, Alt (a @ [Seq q]))
      else if length q > 1 then Inr (i, Seq q)
      else (case n of Some m \<Rightarrow> Inr (i, m) | None \<Rightarrow> Inl EmptyParens))"
  by (subst p_loop.simps) simp

lemma p_loop_star:
  "i < length s \<Longrightarrow> s ! i = CHR ''*'' \<Longrightarrow>
   p_loop s i a q n =
     (case n of
        Some m \<Rightarrow> p_loop s (Suc i) a (if q = [] then q else q[length q - 1 := Star m]) (Some (Star m))
      | None \<Rightarrow> Inl StarWithoutThing)"
  by (subst p_loop.simps) (simp split: option.splits)

lemma p_loop_bar:
  "i < length s \<Longrightarrow> s ! i = CHR ''|'' \<Longrightarrow>
   p_loop s i a q n = p_loop s (Suc i) (a @ [Seq q]) [] n"
  by (subst p_loop.simps) simp

lemma p_loop_atom:
  "i < length s \<Longrightarrow> \<not> special (s ! i) \<Longrightarrow>
   p_loop s i a q n = p_loop s (Suc i) a (q @ [Atom [s ! i]]) (Some (Atom [s ! i]))"
  by (subst p_loop.simps) (simp add: special_def Let_def)

lemma p_loop_cases_induct [case_names End Open Close Star Bar Atom]:
  assumes End: "\<And>s i a q n. \<not> i < length s \<Longrightarrow> P s i a q n"
    and Open: "\<And>s i a q n. i < length s \<Longrightarrow> s ! i = CHR ''('' \<Longrightarrow>
        P s (Suc i) [] [] None \<Longrightarrow>
        (\<And>j m. p_loop s (Suc i) [] [] None = Inr (j, m) \<Longrightarrow> P s (Suc j) a (q @ [m]) (Some m)) \<Longrightarrow>
        P s i a q n"
    and Close: "\<And>s i a q n. i < length s \<Longrightarrow> s ! i = CHR '')'' \<Longrightarrow> P s i a q n"
    and Star: "\<And>s i a q n. i < length s \<Longrightarrow> s ! i = CHR ''*'' \<Longrightarrow>
        (\<And>m. n = Some m \<Longrightarrow>
           P s (Suc i) a (if q = [] then q else q[length q - 1 := Star m]) (Some (Star m))) \<Longrightarrow>
        P s i a q n"
    and Bar: "\<And>s i a q n. i < length s \<Longrightarrow> s ! i = CHR ''|'' \<Longrightarrow>
        P s (Suc i) (a @ [Seq q]) [] n \<Longrightarrow> P s i a q n"
    and Atom: "\<And>s i a q n. i < length s \<Longrightarrow> \<not> special (s ! i) \<Longrightarrow>
        P s (Suc i) a (q @ [Atom [s ! i]]) (Some (Atom [s ! i])) \<Longrightarrow> P s i a q n"
  shows "P s i a q n"
proof (induction s i a q n rule: p_loop.induct)
  case (1 s i alt seq node)
  show ?case
  proof (cases "i < length s")
    case False
    then show ?thesis by (rule End)
  next
    case lt: True
    consider (op) "s ! i = CHR ''(''" | (cl) "s ! i = CHR '')''" | (st) "s ! i = CHR ''*''"
      | (ba) "s ! i = CHR ''|''" | (at) "\<not> special (s ! i)"
      by (auto simp: special_def)
    then show ?thesis
    proof cases
      case op
      show ?thesis
      proof (rule Open[OF lt op])
        show "P s (Suc i) [] [] None" using "1.IH"(1)[OF lt refl op] by simp
      next
        fix j m assume r: "p_loop s (Suc i) [] [] None = Inr (j, m)"
        then have r': "p_loop s (i + 1) [] [] None = Inr (j, m)" by simp
        from "1.IH"(2)[OF lt refl op r' refl] show "P s (Suc j) alt (seq @ [m]) (Some m)" by simp
      qed
    next
      case cl
      show ?thesis by (rule Close[OF lt cl])
    next
      case st
      then have no: "s ! i \<noteq> CHR ''(''" "s ! i \<noteq> CHR '')''" by simp_all
      show ?thesis
      proof (rule Star[OF lt st])
        fix m assume "node = Some m"
        from "1.IH"(3)[OF lt refl no st this]
        show "P s (Suc i) alt (if seq = [] then seq else seq[length seq - 1 := Star m]) (Some (Star m))"
          by simp
      qed
    next
      case ba
      then have no: "s ! i \<noteq> CHR ''(''" "s ! i \<noteq> CHR '')''" "s ! i \<noteq> CHR ''*''" by simp_all
      show ?thesis
        by (rule Bar[OF lt ba]) (use "1.IH"(4)[OF lt refl no ba] in simp)
    next
      case at
      then have no: "s ! i \<noteq> CHR ''(''" "s ! i \<noteq> CHR '')''" "s ! i \<noteq> CHR ''*''" "s ! i \<noteq> CHR ''|''"
        by (simp_all add: special_def)
      show ?thesis
        by (rule Atom[OF lt at]) (use "1.IH"(5)[OF lt refl no] in simp)
    qed
  qed
qed

subsection \<open>Parentheses consumed by a call\<close>

text \<open>
  A call that returns has stopped on a closing parenthesis, and the characters
  it consumed before it are balanced.
\<close>

lemma seg_self [simp]: "seg s i i = []"
  by (simp add: seg_def)

lemma seg_Cons: "i < j \<Longrightarrow> j \<le> length s \<Longrightarrow> seg s i j = s ! i # seg s (Suc i) j"
  by (simp add: seg_def Cons_nth_drop_Suc[symmetric] Suc_diff_Suc[symmetric] del: Suc_diff_Suc)

lemma seg_all: "seg s 0 (length s) = s"
  by (simp add: seg_def)

lemma seg_append: "i \<le> k \<Longrightarrow> k \<le> j \<Longrightarrow> seg s i j = seg s i k @ seg s k j"
proof -
  assume ik: "i \<le> k" and kj: "k \<le> j"
  then have "j - i = (k - i) + (j - k)" by arith
  then have "take (j - i) (drop i s) = take (k - i) (drop i s) @ take (j - k) (drop (k - i) (drop i s))"
    by (simp only: take_add)
  moreover have "drop (k - i) (drop i s) = drop k s" using ik by simp
  ultimately show ?thesis by (simp add: seg_def)
qed

lemma unclosed_append:
  "unclosed (a @ b) d = (case unclosed a d of None \<Rightarrow> None | Some d' \<Rightarrow> unclosed b d')"
  by (induction a arbitrary: d) (auto split: nat.splits)

lemma unclosed_Suc: "unclosed a d = Some m \<Longrightarrow> unclosed a (Suc d) = Some (Suc m)"
proof (induction a arbitrary: d)
  case Nil
  then show ?case by simp
next
  case (Cons c cs)
  show ?case
  proof (cases "c = CHR '')''")
    case True
    with Cons.prems obtain d' where d: "d = Suc d'" and "unclosed cs d' = Some m"
      by (cases d) auto
    then have "unclosed cs (Suc d') = Some (Suc m)" by (intro Cons.IH)
    with True d show ?thesis by simp
  next
    case False
    with Cons show ?thesis by (auto split: if_splits)
  qed
qed

lemma p_loop_balanced:
  "p_loop s i a q n = Inr (j, r) \<Longrightarrow>
     i \<le> j \<and> j < length s \<and> s ! j = CHR '')'' \<and> (\<forall>d. unclosed (seg s i j) d = Some d)"
proof (induction s i a q n arbitrary: j r rule: p_loop_cases_induct)
  case (End s i a q n)
  then show ?case by (simp add: p_loop_end)
next
  case (Open s i a q n)
  from Open.prems Open.hyps obtain j0 m where
    inner: "p_loop s (Suc i) [] [] None = Inr (j0, m)" and
    outer: "p_loop s (Suc j0) a (q @ [m]) (Some m) = Inr (j, r)"
    by (auto simp: p_loop_open split: sum.splits)
  from Open.IH(1)[OF inner] have 1: "Suc i \<le> j0" "j0 < length s" "s ! j0 = CHR '')''"
    "\<And>d. unclosed (seg s (Suc i) j0) d = Some d" by auto
  from Open.IH(2)[OF inner outer] have 2: "Suc j0 \<le> j" "j < length s" "s ! j = CHR '')''"
    "\<And>d. unclosed (seg s (Suc j0) j) d = Some d" by auto
  have "seg s i j = s ! i # seg s (Suc i) j" using 1 2 by (intro seg_Cons) auto
  also have "seg s (Suc i) j = seg s (Suc i) j0 @ seg s j0 j"
    using 1 2 by (intro seg_append) auto
  also have "seg s j0 j = s ! j0 # seg s (Suc j0) j" using 1 2 by (intro seg_Cons) auto
  finally have "seg s i j = CHR ''('' # seg s (Suc i) j0 @ CHR '')'' # seg s (Suc j0) j"
    using Open.hyps 1 by simp
  then have "\<And>d. unclosed (seg s i j) d = Some d"
    using 1(4) 2(4) by (simp add: unclosed_append)
  with 1 2 show ?case by auto
next
  case (Close s i a q n)
  then show ?case by (auto simp: p_loop_close split: if_splits option.splits)
next
  case (Star s i a q n)
  from Star.prems Star.hyps obtain m where nm: "n = Some m" and
    r: "p_loop s (Suc i) a (if q = [] then q else q[length q - 1 := Star m]) (Some (Star m)) = Inr (j, r)"
    by (auto simp: p_loop_star split: option.splits)
  from Star.IH[OF nm r] have 1: "Suc i \<le> j" "j < length s" "s ! j = CHR '')''"
    "\<And>d. unclosed (seg s (Suc i) j) d = Some d" by auto
  have "seg s i j = s ! i # seg s (Suc i) j" using 1 by (intro seg_Cons) auto
  with 1 Star.hyps show ?case by auto
next
  case (Bar s i a q n)
  from Bar.prems Bar.hyps have r: "p_loop s (Suc i) (a @ [Seq q]) [] n = Inr (j, r)"
    by (simp add: p_loop_bar)
  from Bar.IH[OF r] have 1: "Suc i \<le> j" "j < length s" "s ! j = CHR '')''"
    "\<And>d. unclosed (seg s (Suc i) j) d = Some d" by auto
  have "seg s i j = s ! i # seg s (Suc i) j" using 1 by (intro seg_Cons) auto
  with 1 Bar.hyps show ?case by auto
next
  case (Atom s i a q n)
  from Atom.prems Atom.hyps have r: "p_loop s (Suc i) a (q @ [Atom [s ! i]]) (Some (Atom [s ! i])) = Inr (j, r)"
    by (simp add: p_loop_atom)
  from Atom.IH[OF r] have 1: "Suc i \<le> j" "j < length s" "s ! j = CHR '')''"
    "\<And>d. unclosed (seg s (Suc i) j) d = Some d" by auto
  have "seg s i j = s ! i # seg s (Suc i) j" using 1 by (intro seg_Cons) auto
  with 1 Atom.hyps show ?case by (auto simp: special_def)
qed

lemma drop_seg: "i \<le> j \<Longrightarrow> drop i s = seg s i j @ drop j s"
proof -
  assume "i \<le> j"
  then have "drop (j - i) (drop i s) = drop j s" by simp
  with append_take_drop_id[of "j - i" "drop i s"] show ?thesis by (simp add: seg_def)
qed

text \<open>
  A result other than running off the end is reached inside the string, and
  stays the result when the string is extended.
\<close>

lemma p_loop_append:
  "p_loop s i a q n = r \<Longrightarrow> r \<noteq> Inl TerminationTooEarly \<Longrightarrow> p_loop (s @ t) i a q n = r"
proof (induction s i a q n arbitrary: r rule: p_loop_cases_induct)
  case (End s i a q n)
  then show ?case by (simp add: p_loop_end)
next
  case (Open s i a q n)
  have lt: "i < length (s @ t)" and ch: "(s @ t) ! i = CHR ''(''"
    using Open.hyps by (simp_all add: nth_append)
  show ?case
  proof (cases "p_loop s (Suc i) [] [] None")
    case (Inl e)
    with Open.prems Open.hyps have "r = Inl e" by (simp add: p_loop_open)
    with Open.prems Open.IH(1)[OF Inl] have "p_loop (s @ t) (Suc i) [] [] None = Inl e" by simp
    with \<open>r = Inl e\<close> show ?thesis by (simp add: p_loop_open[OF lt ch])
  next
    case (Inr jm)
    obtain j m where jm: "jm = (j, m)" by (cases jm)
    with Inr have inner: "p_loop s (Suc i) [] [] None = Inr (j, m)" by simp
    with Open.prems Open.hyps have outer: "p_loop s (Suc j) a (q @ [m]) (Some m) = r"
      by (simp add: p_loop_open)
    from Open.IH(1)[OF inner] have "p_loop (s @ t) (Suc i) [] [] None = Inr (j, m)" by simp
    moreover from Open.IH(2)[OF inner outer Open.prems(2)]
    have "p_loop (s @ t) (Suc j) a (q @ [m]) (Some m) = r" .
    ultimately show ?thesis by (simp add: p_loop_open[OF lt ch])
  qed
next
  case (Close s i a q n)
  have lt: "i < length (s @ t)" and ch: "(s @ t) ! i = CHR '')''"
    using Close.hyps by (simp_all add: nth_append)
  from Close show ?case by (simp add: p_loop_close[OF lt ch] p_loop_close)
next
  case (Star s i a q n)
  have lt: "i < length (s @ t)" and ch: "(s @ t) ! i = CHR ''*''"
    using Star.hyps by (simp_all add: nth_append)
  show ?case
  proof (cases n)
    case None
    with Star show ?thesis by (simp add: p_loop_star[OF lt ch] p_loop_star)
  next
    case (Some m)
    with Star.prems Star.hyps have
      "p_loop s (Suc i) a (if q = [] then q else q[length q - 1 := Star m]) (Some (Star m)) = r"
      by (simp add: p_loop_star)
    from Star.IH[OF Some this Star.prems(2)] Some show ?thesis
      by (simp add: p_loop_star[OF lt ch])
  qed
next
  case (Bar s i a q n)
  have lt: "i < length (s @ t)" and ch: "(s @ t) ! i = CHR ''|''"
    using Bar.hyps by (simp_all add: nth_append)
  from Bar.prems Bar.hyps have "p_loop s (Suc i) (a @ [Seq q]) [] n = r" by (simp add: p_loop_bar)
  from Bar.IH[OF this Bar.prems(2)] show ?case by (simp add: p_loop_bar[OF lt ch])
next
  case (Atom s i a q n)
  have lt: "i < length (s @ t)" and ch: "\<not> special ((s @ t) ! i)" and eq: "(s @ t) ! i = s ! i"
    using Atom.hyps by (simp_all add: nth_append)
  from Atom.prems Atom.hyps have "p_loop s (Suc i) a (q @ [Atom [s ! i]]) (Some (Atom [s ! i])) = r"
    by (simp add: p_loop_atom)
  from Atom.IH[OF this Atom.prems(2)] show ?case by (simp add: p_loop_atom[OF lt ch] eq)
qed

lemma p_loop_close_closable:
  "i < length s \<Longrightarrow> s ! i = CHR '')'' \<Longrightarrow> closable a q n \<Longrightarrow> \<exists>r. p_loop s i a q n = Inr (i, r)"
  by (auto simp: p_loop_close closable_def)

text \<open>
  When the scan runs off the end of a string that ends in a closing parenthesis,
  \<open>m\<close> groups besides the current one are open, and \<open>m + 1\<close> further closing
  parentheses make the same call return at the last of them.
\<close>

lemma p_loop_unterminated:
  "p_loop s i a q n = Inl TerminationTooEarly \<Longrightarrow> i \<le> length s \<Longrightarrow>
   s \<noteq> [] \<Longrightarrow> last s = CHR '')'' \<Longrightarrow> i < length s \<or> closable a q n \<Longrightarrow>
   \<exists>m. unclosed (drop i s) 0 = Some m \<and>
       (\<forall>t. \<exists>r. p_loop (s @ replicate (Suc m) CHR '')'' @ t) i a q n = Inr (length s + m, r))"
proof (induction s i a q n rule: p_loop_cases_induct)
  case (End s i a q n)
  then have i: "i = length s" and cl: "closable a q n" by auto
  have "\<exists>r. p_loop (s @ replicate (Suc 0) CHR '')'' @ t) i a q n = Inr (length s + 0, r)" for t
    using p_loop_close_closable[of i "s @ replicate (Suc 0) CHR '')'' @ t" a q n] i cl
    by (simp add: nth_append)
  with i show ?case by (intro exI[of _ 0]) simp
next
  case (Open s i a q n)
  from Open.prems have "s ! (length s - 1) = CHR '')''" by (simp add: last_conv_nth)
  with Open.hyps have "i \<noteq> length s - 1" by auto
  with Open.hyps have si: "Suc i < length s" by arith
  have dr: "drop i s = CHR ''('' # drop (Suc i) s"
    using Open.hyps by (simp add: Cons_nth_drop_Suc[symmetric])
  show ?case
  proof (cases "p_loop s (Suc i) [] [] None")
    case (Inl e)
    with Open.prems Open.hyps have inner: "p_loop s (Suc i) [] [] None = Inl TerminationTooEarly"
      by (simp add: p_loop_open)
    from Open.IH(1)[OF inner _ Open.prems(3,4)] si obtain m where
      m: "unclosed (drop (Suc i) s) 0 = Some m" and
      ext: "\<And>t. \<exists>r. p_loop (s @ replicate (Suc m) CHR '')'' @ t) (Suc i) [] [] None = Inr (length s + m, r)"
      by auto
    have "unclosed (drop i s) 0 = Some (Suc m)" using dr unclosed_Suc[OF m] by simp
    moreover have "\<exists>r. p_loop (s @ replicate (Suc (Suc m)) CHR '')'' @ t) i a q n = Inr (length s + Suc m, r)" for t
    proof -
      define S where "S = s @ replicate (Suc (Suc m)) CHR '')'' @ t"
      have S: "S = s @ replicate (Suc m) CHR '')'' @ (CHR '')'' # t)"
        by (simp add: S_def replicate_append_same)
      from ext[of "CHR '')'' # t"] obtain r0 where
        r0: "p_loop S (Suc i) [] [] None = Inr (length s + m, r0)" unfolding S by auto
      have lt: "i < length S" and ch: "S ! i = CHR ''(''"
        using Open.hyps by (simp_all add: S_def nth_append)
      have lt2: "Suc (length s + m) < length S" by (simp add: S_def)
      have ch2: "S ! Suc (length s + m) = CHR '')''"
        unfolding S by (simp add: nth_append)
      from p_loop_close_closable[OF lt2 ch2, of a "q @ [r0]" "Some r0"] obtain r where
        "p_loop S (Suc (length s + m)) a (q @ [r0]) (Some r0) = Inr (Suc (length s + m), r)"
        by (auto simp: closable_def)
      with r0 have "\<exists>r. p_loop S i a q n = Inr (length s + Suc m, r)"
        by (simp add: p_loop_open[OF lt ch])
      then show ?thesis unfolding S_def .
    qed
    ultimately show ?thesis by blast
  next
    case (Inr jm)
    obtain j r0 where "jm = (j, r0)" by (cases jm)
    with Inr have inner: "p_loop s (Suc i) [] [] None = Inr (j, r0)" by simp
    with Open.prems Open.hyps have outer: "p_loop s (Suc j) a (q @ [r0]) (Some r0) = Inl TerminationTooEarly"
      by (simp add: p_loop_open)
    from p_loop_balanced[OF inner] have b: "Suc i \<le> j" "j < length s" "s ! j = CHR '')''"
      "\<And>d. unclosed (seg s (Suc i) j) d = Some d" by auto
    have cl: "closable a (q @ [r0]) (Some r0)" by (simp add: closable_def)
    from Open.IH(2)[OF inner outer _ Open.prems(3,4)] b cl obtain m where
      m: "unclosed (drop (Suc j) s) 0 = Some m" and
      ext: "\<And>t. \<exists>r. p_loop (s @ replicate (Suc m) CHR '')'' @ t) (Suc j) a (q @ [r0]) (Some r0) = Inr (length s + m, r)"
      by auto
    have "drop (Suc i) s = seg s (Suc i) j @ drop j s"
      using b by (intro drop_seg) simp
    also have "drop j s = CHR '')'' # drop (Suc j) s" using b by (simp add: Cons_nth_drop_Suc[symmetric])
    finally have "unclosed (drop i s) 0 = Some m" using dr m b(4) by (simp add: unclosed_append)
    moreover have "\<exists>r. p_loop (s @ replicate (Suc m) CHR '')'' @ t) i a q n = Inr (length s + m, r)" for t
    proof -
      define S where "S = s @ replicate (Suc m) CHR '')'' @ t"
      have lt: "i < length S" and ch: "S ! i = CHR ''(''"
        using Open.hyps by (simp_all add: S_def nth_append)
      have "p_loop S (Suc i) [] [] None = Inr (j, r0)"
        unfolding S_def using inner by (intro p_loop_append) simp_all
      moreover from ext[of t] obtain r where
        "p_loop S (Suc j) a (q @ [r0]) (Some r0) = Inr (length s + m, r)" unfolding S_def by auto
      ultimately have "\<exists>r. p_loop S i a q n = Inr (length s + m, r)"
        by (simp add: p_loop_open[OF lt ch])
      then show ?thesis unfolding S_def .
    qed
    ultimately show ?thesis by blast
  qed
next
  case (Close s i a q n)
  then show ?case by (auto simp: p_loop_close closable_def split: if_splits option.splits)
next
  case (Star s i a q n)
  have dr: "drop i s = CHR ''*'' # drop (Suc i) s"
    using Star.hyps by (simp add: Cons_nth_drop_Suc[symmetric])
  from Star.prems Star.hyps obtain m0 where nm: "n = Some m0" and
    rec: "p_loop s (Suc i) a (if q = [] then q else q[length q - 1 := Star m0]) (Some (Star m0)) = Inl TerminationTooEarly"
    by (auto simp: p_loop_star split: option.splits)
  have cl: "closable a (if q = [] then q else q[length q - 1 := Star m0]) (Some (Star m0))"
    by (simp add: closable_def)
  from Star.IH[OF nm rec _ Star.prems(3,4)] cl Star.hyps obtain m where
    m: "unclosed (drop (Suc i) s) 0 = Some m" and
    ext: "\<And>t. \<exists>r. p_loop (s @ replicate (Suc m) CHR '')'' @ t) (Suc i) a
            (if q = [] then q else q[length q - 1 := Star m0]) (Some (Star m0)) = Inr (length s + m, r)"
    by auto
  have "\<exists>r. p_loop (s @ replicate (Suc m) CHR '')'' @ t) i a q n = Inr (length s + m, r)" for t
  proof -
    define S where "S = s @ replicate (Suc m) CHR '')'' @ t"
    have lt: "i < length S" and ch: "S ! i = CHR ''*''"
      using Star.hyps by (simp_all add: S_def nth_append)
    from ext[of t] obtain r where
      "p_loop S (Suc i) a (if q = [] then q else q[length q - 1 := Star m0]) (Some (Star m0))
         = Inr (length s + m, r)" unfolding S_def by auto
    with nm have "\<exists>r. p_loop S i a q n = Inr (length s + m, r)"
      by (simp add: p_loop_star[OF lt ch])
    then show ?thesis unfolding S_def .
  qed
  with m dr show ?case by auto
next
  case (Bar s i a q n)
  have dr: "drop i s = CHR ''|'' # drop (Suc i) s"
    using Bar.hyps by (simp add: Cons_nth_drop_Suc[symmetric])
  from Bar.prems Bar.hyps have
    rec: "p_loop s (Suc i) (a @ [Seq q]) [] n = Inl TerminationTooEarly"
    by (simp add: p_loop_bar)
  have cl: "closable (a @ [Seq q]) [] n" by (simp add: closable_def)
  from Bar.IH[OF rec _ Bar.prems(3,4)] cl Bar.hyps obtain m where
    m: "unclosed (drop (Suc i) s) 0 = Some m" and
    ext: "\<And>t. \<exists>r. p_loop (s @ replicate (Suc m) CHR '')'' @ t) (Suc i) (a @ [Seq q]) [] n = Inr (length s + m, r)"
    by auto
  have "\<exists>r. p_loop (s @ replicate (Suc m) CHR '')'' @ t) i a q n = Inr (length s + m, r)" for t
  proof -
    define S where "S = s @ replicate (Suc m) CHR '')'' @ t"
    have lt: "i < length S" and ch: "S ! i = CHR ''|''"
      using Bar.hyps by (simp_all add: S_def nth_append)
    from ext[of t] obtain r where
      "p_loop S (Suc i) (a @ [Seq q]) [] n = Inr (length s + m, r)" unfolding S_def by auto
    then have "\<exists>r. p_loop S i a q n = Inr (length s + m, r)"
      by (simp add: p_loop_bar[OF lt ch])
    then show ?thesis unfolding S_def .
  qed
  with m dr show ?case by auto
next
  case (Atom s i a q n)
  have dr: "drop i s = s ! i # drop (Suc i) s"
    using Atom.hyps by (simp add: Cons_nth_drop_Suc[symmetric])
  from Atom.prems Atom.hyps have
    rec: "p_loop s (Suc i) a (q @ [Atom [s ! i]]) (Some (Atom [s ! i])) = Inl TerminationTooEarly"
    by (simp add: p_loop_atom)
  have cl: "closable a (q @ [Atom [s ! i]]) (Some (Atom [s ! i]))" by (simp add: closable_def)
  from Atom.IH[OF rec _ Atom.prems(3,4)] cl Atom.hyps obtain m where
    m: "unclosed (drop (Suc i) s) 0 = Some m" and
    ext: "\<And>t. \<exists>r. p_loop (s @ replicate (Suc m) CHR '')'' @ t) (Suc i) a (q @ [Atom [s ! i]]) (Some (Atom [s ! i])) = Inr (length s + m, r)"
    by auto
  have "\<exists>r. p_loop (s @ replicate (Suc m) CHR '')'' @ t) i a q n = Inr (length s + m, r)" for t
  proof -
    define S where "S = s @ replicate (Suc m) CHR '')'' @ t"
    have lt: "i < length S" and ch: "\<not> special (S ! i)" and eq: "S ! i = s ! i"
      using Atom.hyps by (simp_all add: S_def nth_append)
    from ext[of t] obtain r where
      "p_loop S (Suc i) a (q @ [Atom [s ! i]]) (Some (Atom [s ! i])) = Inr (length s + m, r)"
      unfolding S_def by auto
    then have "\<exists>r. p_loop S i a q n = Inr (length s + m, r)"
      by (simp add: p_loop_atom[OF lt ch] eq)
    then show ?thesis unfolding S_def .
  qed
  with m dr Atom.hyps show ?case by (auto simp: special_def)
qed

lemma p_loop_error: "p_loop s i a q n \<noteq> Inl NotEverythingConsumed"
proof (induction s i a q n rule: p_loop_cases_induct)
  case (End s i a q n)
  then show ?case by (simp add: p_loop_end)
next
  case (Open s i a q n)
  then show ?case by (auto simp: p_loop_open split: sum.splits)
next
  case (Close s i a q n)
  then show ?case by (auto simp: p_loop_close split: option.splits)
next
  case (Star s i a q n)
  then show ?case by (auto simp: p_loop_star split: option.splits)
next
  case (Bar s i a q n)
  then show ?case by (simp add: p_loop_bar)
next
  case (Atom s i a q n)
  then show ?case by (simp add: p_loop_atom)
qed

lemma p_loop_returns_closed:
  assumes "p_loop s 0 a q n = Inr (j, r)"
  shows "unclosed s 0 = None"
proof -
  from p_loop_balanced[OF assms] have b: "j < length s" "s ! j = CHR '')''"
    "\<And>d. unclosed (seg s 0 j) d = Some d" by auto
  have "s = seg s 0 j @ drop j s" using drop_seg[of 0 j s] by simp
  also have "drop j s = CHR '')'' # drop (Suc j) s" using b by (simp add: Cons_nth_drop_Suc[symmetric])
  finally have "unclosed s 0 = unclosed (seg s 0 j @ CHR '')'' # drop (Suc j) s) 0" by simp
  then show ?thesis using b(3) by (simp add: unclosed_append)
qed

lemma parse_returns_balanced:
  assumes "parse s = Inr ast"
  shows "unclosed s 0 = Some 0"
proof -
  from assms obtain r where r: "p_loop (s @ '')'') 0 [] [] None = Inr (length s, r)"
    by (auto simp: parse_def p_def Let_def split: sum.splits if_splits)
  from p_loop_balanced[OF r] have "unclosed (seg (s @ '')'') 0 (length s)) 0 = Some 0" by blast
  then show ?thesis by (simp add: seg_def)
qed

text \<open>
  C2. The claim is that a \<^verbatim>\<open>*\<close> with no preceding term in the current alternative,
  so also a \<^verbatim>\<open>*\<close> right after \<^verbatim>\<open>|\<close>, aborts the parse with
  \<^verbatim>\<open>'star without thing'\<close>. The test of the code is \<^verbatim>\<open>node !== null\<close>, and the branch
  for \<^verbatim>\<open>|\<close> starts a new sequence without resetting \<^verbatim>\<open>node\<close>. On \<^verbatim>\<open>a|*\<close> the star
  therefore wraps the atom of the previous alternative, the assignment into the
  empty new sequence stores nothing, and \<^verbatim>\<open>parse\<close> returns the alternation of
  \<^verbatim>\<open>a\<close> and epsilon.
\<close>

theorem parse_star_after_bar_returns_ast:
  "parse ''a|*'' = Inr (Alt [Atom ''a'', Atom ''''])"
  by (simp add: parse_def p_def p_loop.simps)

text \<open>
  Where \<^verbatim>\<open>node\<close> is still \<^verbatim>\<open>null\<close> the error is raised: a star that opens the
  pattern, and a star that opens a group or follows a \<^verbatim>\<open>|\<close> with nothing before it.
\<close>

lemma parse_leading_star: "parse (CHR ''*'' # s) = Inl StarWithoutThing"
  by (simp add: parse_def p_def p_loop.simps)

lemma parse_star_opens_group: "parse (CHR ''('' # CHR ''*'' # s) = Inl StarWithoutThing"
  by (simp add: parse_def p_def p_loop.simps)

lemma parse_bar_star: "parse (CHR ''|'' # CHR ''*'' # s) = Inl StarWithoutThing"
  by (simp add: parse_def p_def p_loop.simps)

text \<open>
  C3. The claim is that every pattern with an unmatched opening parenthesis fails
  with \<^verbatim>\<open>'termination too early'\<close>. It fails on \<^verbatim>\<open>(\<close>: the closing parenthesis that
  \<^verbatim>\<open>parse\<close> appends closes the group, which is empty, and the error is
  \<^verbatim>\<open>'empty parens'\<close>.
\<close>

theorem parse_open_paren_alone:
  "unclosed ''('' 0 = Some (Suc 0) \<and> parse ''('' = Inl EmptyParens
   \<and> parse ''('' \<noteq> Inl TerminationTooEarly"
  by (simp add: parse_def p_def p_loop.simps)

text \<open>
  C3, as amended. Let the pattern have \<open>d + 1\<close> opening parentheses that are never
  closed, and no closing parenthesis without an opening one. Then \<^verbatim>\<open>parse\<close> fails,
  with \<^verbatim>\<open>'termination too early'\<close>, \<^verbatim>\<open>'empty parens'\<close> or \<^verbatim>\<open>'star without thing'\<close>.
  Which one is decided by the pattern completed with its \<open>d + 1\<close> missing closing
  parentheses: if the completed pattern parses, the error is
  \<^verbatim>\<open>'termination too early'\<close>; if it fails, the pattern fails with the same error,
  raised before the end of the input is reached.
\<close>

theorem parse_unmatched_open:
  assumes "unclosed s 0 = Some (Suc d)"
  shows "parse s \<in> {Inl TerminationTooEarly, Inl EmptyParens, Inl StarWithoutThing}
     \<and> parse s =
        (case parse (s @ replicate (Suc d) CHR '')'') of
           Inr ast \<Rightarrow> Inl TerminationTooEarly
         | Inl e \<Rightarrow> Inl e)"
proof -
  define s' where "s' = s @ '')''"
  define cs where "cs = s @ replicate (Suc d) CHR '')''"
  define c' where "c' = cs @ '')''"
  have c': "c' = s' @ replicate (Suc d) CHR '')'' @ []"
    by (simp add: c'_def cs_def s'_def replicate_append_same)
  have un: "unclosed s' 0 = Some d" using assms by (simp add: s'_def unclosed_append)
  have ps: "parse s = (case p_loop s' 0 [] [] None of Inl e \<Rightarrow> Inl e
      | Inr (j, r) \<Rightarrow> if j \<noteq> length s' - 1 then Inl NotEverythingConsumed else Inr (simplify r))"
    unfolding parse_def p_def s'_def Let_def ..
  have pc: "parse cs = (case p_loop c' 0 [] [] None of Inl e \<Rightarrow> Inl e
      | Inr (j, r) \<Rightarrow> if j \<noteq> length c' - 1 then Inl NotEverythingConsumed else Inr (simplify r))"
    unfolding parse_def p_def c'_def Let_def ..
  have "parse s \<in> {Inl TerminationTooEarly, Inl EmptyParens, Inl StarWithoutThing}
     \<and> parse s = (case parse cs of Inr ast \<Rightarrow> Inl TerminationTooEarly | Inl e \<Rightarrow> Inl e)"
  proof (cases "p_loop s' 0 [] [] None")
    case (Inr jr)
    obtain j r where "jr = (j, r)" by (cases jr)
    with Inr p_loop_returns_closed[of s' "[]" "[]" None j r] un show ?thesis by simp
  next
    case (Inl e)
    show ?thesis
    proof (cases "e = TerminationTooEarly")
      case False
      with Inl have "p_loop c' 0 [] [] None = Inl e" unfolding c' by (intro p_loop_append) simp_all
      moreover have "e \<noteq> NotEverythingConsumed" using Inl p_loop_error[of s' 0 "[]" "[]" None] by auto
      ultimately show ?thesis using Inl False ps pc by (cases e) simp_all
    next
      case True
      with Inl have tte: "p_loop s' 0 [] [] None = Inl TerminationTooEarly" by simp
      have "s' \<noteq> []" "last s' = CHR '')''" "0 < length s'" by (simp_all add: s'_def)
      with p_loop_unterminated[OF tte] obtain m where
        m: "unclosed (drop 0 s') 0 = Some m" and
        ext: "\<And>t. \<exists>r. p_loop (s' @ replicate (Suc m) CHR '')'' @ t) 0 [] [] None = Inr (length s' + m, r)"
        by auto
      from m un have "m = d" by simp
      with ext[of "[]"] obtain r where "p_loop c' 0 [] [] None = Inr (length s' + d, r)"
        unfolding c' by auto
      moreover have "length c' - 1 = length s' + d" by (simp add: c')
      ultimately have "parse cs = Inr (simplify r)"
        by (simp add: pc)
      with tte ps show ?thesis by simp
    qed
  qed
  then show ?thesis unfolding cs_def .
qed

theorem parse_unmatched_open_witness:
  "unclosed ''(a|(b'' 0 = Some (Suc (Suc 0))
   \<and> parse ''(a|(b))'' = Inr (Alt [Atom ''a'', Atom ''b''])
   \<and> parse ''(a|(b'' = Inl TerminationTooEarly"
proof -
  have h: "unclosed ''(a|(b'' 0 = Some (Suc (Suc 0))" by simp
  have c: "parse ''(a|(b))'' = Inr (Alt [Atom ''a'', Atom ''b''])"
    by (simp add: parse_def p_def p_loop.simps)
  from parse_unmatched_open[OF h] c h show ?thesis by (simp add: numeral_2_eq_2)
qed

text \<open>
  C10. The empty pattern is rejected. \<^verbatim>\<open>parse("")\<close> scans the string \<^verbatim>\<open>")"\<close>: the
  appended parenthesis closes a top-level scope with one alternative, no term and
  \<^verbatim>\<open>node = null\<close>, which is the \<^verbatim>\<open>'empty parens'\<close> error.
\<close>

theorem parse_empty_pattern: "parse '''' = Inl EmptyParens"
  by (simp add: parse_def p_def p_loop.simps)

section \<open>Properties of the matcher\<close>

subsection \<open>The closure computation\<close>

text \<open>
  A call of \<^verbatim>\<open>addNodeToSet\<close> on a node outside the visited list enters the node
  and then recurses; each nested call finds one unvisited node less. So a depth
  allowance above the number of unvisited nodes is enough, and the list
  returned is related to the list given by \<^const>\<open>grows\<close>.
\<close>

lemma targets_simps [simp]:
  "targets l [] = {}"
  "targets l (e # es) = (if edge_v e = l then insert (edge_t e) (targets l es) else targets l es)"
  by (auto simp: targets_def)

lemma targets_edge: "t \<in> targets l es \<longleftrightarrow> Edge l t \<in> set es"
  by (force simp: targets_def image_iff)

lemma growsI:
  assumes "set ns \<subseteq> set ns'" "R \<subseteq> set ns'"
    and "\<And>q. q \<in> set ns' \<Longrightarrow> q \<notin> set ns \<Longrightarrow> \<exists>r\<in>R. path g r [] q"
    and "\<And>u e. u \<in> set ns' \<Longrightarrow> u \<notin> set ns \<Longrightarrow> e \<in> set (ds g u) \<Longrightarrow> edge_v e = [] \<Longrightarrow>
           edge_t e \<in> set ns'"
    and "distinct ns \<Longrightarrow> distinct ns'"
  shows "grows g R ns ns'"
  unfolding grows_def using assms by auto

lemma grows_subset: "grows g R ns ns' \<Longrightarrow> set ns \<subseteq> set ns'"
  by (simp add: grows_def)

lemma grows_roots: "grows g R ns ns' \<Longrightarrow> R \<subseteq> set ns'"
  by (simp add: grows_def)

lemma grows_new: "grows g R ns ns' \<Longrightarrow> q \<in> set ns' \<Longrightarrow> q \<notin> set ns \<Longrightarrow> \<exists>r\<in>R. path g r [] q"
  by (simp add: grows_def)

lemma grows_succ:
  "grows g R ns ns' \<Longrightarrow> u \<in> set ns' \<Longrightarrow> u \<notin> set ns \<Longrightarrow> e \<in> set (ds g u) \<Longrightarrow>
     edge_v e = [] \<Longrightarrow> edge_t e \<in> set ns'"
  by (simp add: grows_def)

lemma grows_distinct: "grows g R ns ns' \<Longrightarrow> distinct ns \<Longrightarrow> distinct ns'"
  by (simp add: grows_def)

lemma grows_refl: "grows g {} ns ns"
  by (rule growsI) simp_all

lemma grows_trans:
  assumes 1: "grows g R1 a b" and 2: "grows g R2 b c"
  shows "grows g (R1 \<union> R2) a c"
proof (rule growsI)
  show "set a \<subseteq> set c" using grows_subset[OF 1] grows_subset[OF 2] by simp
  show "R1 \<union> R2 \<subseteq> set c" using grows_roots[OF 1] grows_subset[OF 2] grows_roots[OF 2] by auto
next
  fix q assume q: "q \<in> set c" "q \<notin> set a"
  show "\<exists>r\<in>R1 \<union> R2. path g r [] q"
  proof (cases "q \<in> set b")
    case True
    from grows_new[OF 1 True q(2)] show ?thesis by auto
  next
    case False
    from grows_new[OF 2 q(1) False] show ?thesis by auto
  qed
next
  fix u e assume u: "u \<in> set c" "u \<notin> set a" and e: "e \<in> set (ds g u)" "edge_v e = []"
  show "edge_t e \<in> set c"
  proof (cases "u \<in> set b")
    case True
    from grows_succ[OF 1 True u(2) e] grows_subset[OF 2] show ?thesis by auto
  next
    case False
    from grows_succ[OF 2 u(1) False e] show ?thesis .
  qed
next
  assume "distinct a"
  then show "distinct c" using grows_distinct[OF 1] grows_distinct[OF 2] by simp
qed

lemma unvisited_le: "unvisited g ns \<le> length g"
proof -
  have "card ({..<length g} - set ns) \<le> card {..<length g}" by (intro card_mono) auto
  then show ?thesis by (simp add: unvisited_def)
qed

lemma unvisited_mono: "set ns \<subseteq> set ns' \<Longrightarrow> unvisited g ns' \<le> unvisited g ns"
  unfolding unvisited_def by (intro card_mono) auto

lemma unvisited_add: "n < length g \<Longrightarrow> n \<notin> set ns \<Longrightarrow> unvisited g (ns @ [n]) < unvisited g ns"
  unfolding unvisited_def by (intro psubset_card_mono) auto

lemma grows_node:
  assumes n: "n \<notin> set ns" and g: "grows g (targets [] (ds g n)) (ns @ [n]) ns'"
  shows "grows g {n} ns ns'"
proof (rule growsI)
  show "set ns \<subseteq> set ns'" using grows_subset[OF g] by simp
  show "{n} \<subseteq> set ns'" using grows_subset[OF g] by simp
next
  fix q assume q: "q \<in> set ns'" "q \<notin> set ns"
  show "\<exists>r\<in>{n}. path g r [] q"
  proof (cases "q = n")
    case True
    then show ?thesis by (auto intro: path_nil)
  next
    case False
    with q have "q \<notin> set (ns @ [n])" by simp
    from grows_new[OF g q(1) this] obtain t where "t \<in> targets [] (ds g n)" "path g t [] q"
      by auto
    then show ?thesis by (auto simp: targets_edge intro: path_eps)
  qed
next
  fix u e assume u: "u \<in> set ns'" "u \<notin> set ns" and e: "e \<in> set (ds g u)" "edge_v e = []"
  show "edge_t e \<in> set ns'"
  proof (cases "u = n")
    case True
    with e have "edge_t e \<in> targets [] (ds g n)" by (auto simp: targets_def)
    with grows_roots[OF g] show ?thesis by auto
  next
    case False
    with u have "u \<notin> set (ns @ [n])" by simp
    from grows_succ[OF g u(1) this e] show ?thesis .
  qed
next
  assume "distinct ns"
  with n have "distinct (ns @ [n])" by simp
  then show "distinct ns'" by (rule grows_distinct[OF g])
qed

lemma addNodeToSet_edges_grows:
  assumes P: "\<And>ns n. unvisited g ns < k \<Longrightarrow>
                \<exists>ns'. addNodeToSet k g ns n = Some ns' \<and> grows g {n} ns ns'"
  shows "unvisited g ns < k \<Longrightarrow>
           \<exists>ns'. addNodeToSet_edges k g ns es = Some ns' \<and> grows g (targets [] es) ns ns'"
proof (induction es arbitrary: ns)
  case Nil
  then show ?case by (simp add: grows_refl)
next
  case (Cons e es)
  show ?case
  proof (cases "edge_v e = []")
    case True
    from P[OF Cons.prems, of "edge_t e"] obtain ns1 where
      1: "addNodeToSet k g ns (edge_t e) = Some ns1" and g1: "grows g {edge_t e} ns ns1" by auto
    from g1 Cons.prems have "unvisited g ns1 < k"
      using unvisited_mono[OF grows_subset[OF g1], of g] by simp
    from Cons.IH[OF this] obtain ns' where
      2: "addNodeToSet_edges k g ns1 es = Some ns'" and g2: "grows g (targets [] es) ns1 ns'" by auto
    from grows_trans[OF g1 g2] True 1 2 show ?thesis by simp
  next
    case False
    with Cons.IH[OF Cons.prems] show ?thesis by simp
  qed
qed

lemma addNodeToSet_grows:
  "unvisited g ns < k \<Longrightarrow> \<exists>ns'. addNodeToSet k g ns n = Some ns' \<and> grows g {n} ns ns'"
proof (induction k arbitrary: ns n)
  case 0
  then show ?case by simp
next
  case (Suc k)
  show ?case
  proof (cases "n \<in> set ns")
    case True
    then have "grows g {n} ns ns" by (intro growsI) (auto intro: path_nil)
    with True show ?thesis by simp
  next
    case False
    note nin = this
    show ?thesis
    proof (cases "n < length g")
      case True
      from unvisited_add[OF True nin] Suc.prems have "unvisited g (ns @ [n]) < k" by simp
      from addNodeToSet_edges_grows[of g k, OF Suc.IH this, of "ds g n"] obtain ns' where
        "addNodeToSet_edges k g (ns @ [n]) (ds g n) = Some ns'"
        "grows g (targets [] (ds g n)) (ns @ [n]) ns'" by auto
      with nin grows_node[OF nin this(2)] show ?thesis by simp
    next
      case False
      then have d: "ds g n = []" by (simp add: ds_def)
      have "grows g (targets [] (ds g n)) (ns @ [n]) (ns @ [n])" unfolding d by (simp add: grows_refl)
      from grows_node[OF nin this] nin d show ?thesis by simp
    qed
  qed
qed

lemma eps_closed_path:
  "path g u w q \<Longrightarrow> w = [] \<Longrightarrow> eps_closed g S \<Longrightarrow> u \<in> S \<Longrightarrow> q \<in> S"
proof (induction rule: path.induct)
  case (path_eps q u w r)
  then have "q \<in> S" unfolding eps_closed_def by force
  with path_eps show ?case by simp
qed simp_all

lemma grows_closed:
  assumes c0: "eps_closed g (set ns)" and gr: "grows g R ns ns'"
  shows "eps_closed g (set ns')" and "set ns' = set ns \<union> {q. \<exists>r\<in>R. path g r [] q}"
proof -
  show c: "eps_closed g (set ns')"
    unfolding eps_closed_def
  proof (intro ballI impI)
    fix u e assume u: "u \<in> set ns'" and e: "e \<in> set (ds g u)" "edge_v e = []"
    show "edge_t e \<in> set ns'"
    proof (cases "u \<in> set ns")
      case True
      with c0 e have "edge_t e \<in> set ns" unfolding eps_closed_def by blast
      with grows_subset[OF gr] show ?thesis by auto
    next
      case False
      from grows_succ[OF gr u False e] show ?thesis .
    qed
  qed
  show "set ns' = set ns \<union> {q. \<exists>r\<in>R. path g r [] q}"
  proof (intro equalityI subsetI)
    fix q assume "q \<in> set ns'"
    with grows_new[OF gr] show "q \<in> set ns \<union> {q. \<exists>r\<in>R. path g r [] q}" by blast
  next
    fix q assume "q \<in> set ns \<union> {q. \<exists>r\<in>R. path g r [] q}"
    then show "q \<in> set ns'"
    proof
      assume "q \<in> set ns" with grows_subset[OF gr] show ?thesis by auto
    next
      assume "q \<in> {q. \<exists>r\<in>R. path g r [] q}"
      then obtain r where r: "r \<in> R" "path g r [] q" by auto
      with grows_roots[OF gr] have "r \<in> set ns'" by auto
      from eps_closed_path[OF r(2) refl c this] show ?thesis .
    qed
  qed
qed

text \<open>
  The depth allowance has no part in a result: a call that returns, returns the
  same list under a larger allowance.
\<close>

lemma addNodeToSet_more_fuel:
  "addNodeToSet k g ns n = Some r \<Longrightarrow> addNodeToSet (Suc k) g ns n = Some r"
  "addNodeToSet_edges k g ns es = Some r' \<Longrightarrow> addNodeToSet_edges (Suc k) g ns es = Some r'"
  by (induction k g ns n and k g ns es arbitrary: r and r' rule: addNodeToSet_addNodeToSet_edges.induct)
     (auto split: if_splits option.splits)

subsection \<open>The simulation\<close>

text \<open>
  The set built for one character is the closure of the targets of the edges
  with that label; started from a closed set \<open>ns\<close>, the loop over the input ends
  in the set of all nodes reached from a member of \<open>ns\<close> by a walk that spells
  the input.
\<close>

lemma match_edges_grows:
  assumes k: "length g < k"
  shows "\<exists>ns'. match_edges k g c ns es = Some ns' \<and> grows g (targets [c] es) ns ns'"
proof (induction es arbitrary: ns)
  case Nil
  show ?case by (simp add: grows_refl)
next
  case (Cons e es)
  show ?case
  proof (cases "edge_v e = [c]")
    case True
    have "unvisited g ns < k" using unvisited_le[of g ns] k by simp
    from addNodeToSet_grows[OF this, of "edge_t e"] obtain ns1 where
      1: "addNodeToSet k g ns (edge_t e) = Some ns1" and g1: "grows g {edge_t e} ns ns1" by auto
    from Cons.IH[of ns1] obtain ns' where
      2: "match_edges k g c ns1 es = Some ns'" and g2: "grows g (targets [c] es) ns1 ns'" by auto
    from grows_trans[OF g1 g2] True 1 2 show ?thesis by simp
  next
    case False
    then have "[c] \<noteq> edge_v e" by auto
    with False Cons.IH[of ns] show ?thesis by simp
  qed
qed

lemma step_targets_simps [simp]:
  "step_targets g c [] = {}"
  "step_targets g c (n # ns) = targets [c] (ds g n) \<union> step_targets g c ns"
  by (simp_all add: step_targets_def)

lemma match_nodes_grows:
  assumes k: "length g < k"
  shows "\<exists>ns'. match_nodes k g c newNs ns = Some ns' \<and> grows g (step_targets g c ns) newNs ns'"
proof (induction ns arbitrary: newNs)
  case Nil
  show ?case by (simp add: grows_refl)
next
  case (Cons n ns)
  from match_edges_grows[OF k, of c newNs "ds g n"] obtain ns1 where
    1: "match_edges k g c newNs (ds g n) = Some ns1" and
    g1: "grows g (targets [c] (ds g n)) newNs ns1" by auto
  from Cons.IH[of ns1] obtain ns' where
    2: "match_nodes k g c ns1 ns = Some ns'" and g2: "grows g (step_targets g c ns) ns1 ns'" by auto
  from grows_trans[OF g1 g2] 1 2 show ?case by simp
qed

lemma path_append: "path g a w1 b \<Longrightarrow> path g b w2 r \<Longrightarrow> path g a (w1 @ w2) r"
  by (induction rule: path.induct) (auto intro: path.intros)

lemma path_first_char:
  "path g u w r \<Longrightarrow> w = c # cs \<Longrightarrow> eps_closed g S \<Longrightarrow> u \<in> S \<Longrightarrow>
     \<exists>u'\<in>S. \<exists>t. Edge [c] t \<in> set (ds g u') \<and> path g t cs r"
proof (induction rule: path.induct)
  case (path_nil u)
  then show ?case by simp
next
  case (path_eps q u w r)
  then have "q \<in> S" unfolding eps_closed_def by force
  with path_eps show ?case by simp
next
  case (path_chr c' q u w r)
  then show ?case by auto
qed

lemma eps_closed_empty: "eps_closed g (set [])"
  by (simp add: eps_closed_def)

lemma match_chars_reach:
  assumes k: "length g < k"
  shows "eps_closed g (set ns) \<Longrightarrow>
     \<exists>ns'. match_chars k g ns str = Some ns' \<and> set ns' = {r. \<exists>u\<in>set ns. path g u str r}"
proof (induction str arbitrary: ns)
  case Nil
  have "set ns = {r. \<exists>u\<in>set ns. path g u [] r}"
    using eps_closed_path[OF _ refl Nil] by (auto intro: path_nil)
  then show ?case by simp
next
  case (Cons c str)
  from match_nodes_grows[OF k, of c "[]" ns] obtain newNs where
    1: "match_nodes k g c [] ns = Some newNs" and g1: "grows g (step_targets g c ns) [] newNs"
    by auto
  from grows_closed[OF eps_closed_empty g1] have
    cl: "eps_closed g (set newNs)" and
    new: "set newNs = {q. \<exists>r\<in>step_targets g c ns. path g r [] q}" by auto
  from Cons.IH[OF cl] obtain ns' where
    2: "match_chars k g newNs str = Some ns'" and
    r: "set ns' = {r. \<exists>u\<in>set newNs. path g u str r}" by auto
  have "{r. \<exists>u\<in>set newNs. path g u str r} = {r. \<exists>u\<in>set ns. path g u (c # str) r}"
  proof (intro equalityI subsetI)
    fix r assume "r \<in> {r. \<exists>u\<in>set newNs. path g u str r}"
    then obtain u where u: "u \<in> set newNs" "path g u str r" by auto
    with new obtain t where t: "t \<in> step_targets g c ns" "path g t [] u" by auto
    then obtain n where n: "n \<in> set ns" "Edge [c] t \<in> set (ds g n)"
      by (auto simp: step_targets_def targets_edge)
    from path_append[OF t(2) u(2)] have "path g t str r" by simp
    with n show "r \<in> {r. \<exists>u\<in>set ns. path g u (c # str) r}" by (auto intro: path_chr)
  next
    fix r assume "r \<in> {r. \<exists>u\<in>set ns. path g u (c # str) r}"
    then obtain u where u: "u \<in> set ns" "path g u (c # str) r" by auto
    from path_first_char[OF u(2) refl Cons.prems u(1)] obtain u' t where
      t: "u' \<in> set ns" "Edge [c] t \<in> set (ds g u')" "path g t str r" by auto
    then have "t \<in> step_targets g c ns" by (auto simp: step_targets_def targets_edge)
    with new have "t \<in> set newNs" by (auto intro: path_nil)
    with t(3) show "r \<in> {r. \<exists>u\<in>set newNs. path g u str r}" by auto
  qed
  with 1 2 r show ?case by simp
qed

lemma match_reach:
  assumes k: "length g < k"
  shows "\<exists>ns. match k (startNode, g) str = Some (list_ex (\<lambda>n. length (ds g n) = 0) ns)
           \<and> set ns = {r. path g startNode str r}"
proof -
  have "unvisited g [] < k" using unvisited_le[of g "[]"] k by simp
  from addNodeToSet_grows[OF this, of startNode] obtain ns0 where
    0: "addNodeToSet k g [] startNode = Some ns0" and g0: "grows g {startNode} [] ns0" by auto
  from grows_closed[OF eps_closed_empty g0] have
    cl: "eps_closed g (set ns0)" and s0: "set ns0 = {q. path g startNode [] q}" by auto
  from match_chars_reach[OF k cl, of str] obtain ns where
    1: "match_chars k g ns0 str = Some ns" and
    r: "set ns = {r. \<exists>u\<in>set ns0. path g u str r}" by auto
  have "{r. \<exists>u\<in>set ns0. path g u str r} = {r. path g startNode str r}"
  proof (intro equalityI subsetI)
    fix r assume "r \<in> {r. \<exists>u\<in>set ns0. path g u str r}"
    with s0 obtain u where "path g startNode [] u" "path g u str r" by auto
    from path_append[OF this] show "r \<in> {r. path g startNode str r}" by simp
  next
    fix r assume "r \<in> {r. path g startNode str r}"
    moreover have "startNode \<in> set ns0" using s0 by (auto intro: path_nil)
    ultimately show "r \<in> {r. \<exists>u\<in>set ns0. path g u str r}" by auto
  qed
  with 0 1 r show ?thesis by (intro exI[of _ ns]) (simp add: match_def)
qed

text \<open>
  C4. \<^verbatim>\<open>match\<close> decides acceptance of the whole string: given a recursion depth
  above the number of nodes, it returns, and it returns true exactly when some
  node without outgoing edges is reached from the start node by a walk that
  consumes the entire input. This holds for every store, so for every automaton
  built from a parsed pattern. For the automaton of \<^verbatim>\<open>a*\<close> and the input \<^verbatim>\<open>aab\<close>
  the answer is false, although the prefix \<^verbatim>\<open>aa\<close> is accepted.
\<close>

theorem match_whole_string:
  assumes "length g < fuel"
  shows "match fuel (startNode, g) str = Some (\<exists>q. path g startNode str q \<and> length (ds g q) = 0)"
proof -
  from match_reach[OF assms, of startNode str] obtain ns where
    "match fuel (startNode, g) str = Some (list_ex (\<lambda>n. length (ds g n) = 0) ns)"
    "set ns = {r. path g startNode str r}" by auto
  then show ?thesis by (auto simp: list_ex_iff)
qed

theorem match_whole_string_witness:
  "parse ''a*'' = Inr (Star (Atom ''a''))
   \<and> makeNfa (Star (Atom ''a'')) = (0, [[Edge [] 2], [], [Edge ''a'' 2, Edge [] 1]])
   \<and> length [[Edge [] 2], [], [Edge ''a'' 2, Edge [] 1]] < 4
   \<and> match 4 (0, [[Edge [] 2], [], [Edge ''a'' 2, Edge [] 1]]) ''aab'' = Some False
   \<and> \<not> (\<exists>q. path [[Edge [] 2], [], [Edge ''a'' 2, Edge [] 1]] 0 ''aab'' q
            \<and> length (ds [[Edge [] 2], [], [Edge ''a'' 2, Edge [] 1]] q) = 0)
   \<and> match 4 (0, [[Edge [] 2], [], [Edge ''a'' 2, Edge [] 1]]) ''aa'' = Some True"
proof -
  let ?g = "[[Edge [] 2], [], [Edge ''a'' 2, Edge [] 1]]"
  have p: "parse ''a*'' = Inr (Star (Atom ''a''))"
    by (simp add: parse_def p_def p_loop.simps)
  have n: "makeNfa (Star (Atom ''a'')) = (0, ?g)"
    by (simp add: makeNfa_def push_edge_def)
  have l: "length ?g < 4" by simp
  have m: "match 4 (0, ?g) ''aab'' = Some False"
    by (simp add: match_def ds_def eval_nat_numeral)
  have m2: "match 4 (0, ?g) ''aa'' = Some True"
    by (simp add: match_def ds_def eval_nat_numeral)
  from match_whole_string[OF l, of 0 "''aab''"] m
  have "\<not> (\<exists>q. path ?g 0 ''aab'' q \<and> length (ds ?g q) = 0)" by simp
  with p n l m m2 show ?thesis by simp
qed

text \<open>
  C9. \<^verbatim>\<open>match\<close> is total. For every store and every input, a recursion depth
  above the number of nodes is enough for \<^verbatim>\<open>addNodeToSet\<close> and for \<^verbatim>\<open>match\<close> to
  return, whatever cycles of epsilon edges the store has; and \<^verbatim>\<open>addNodeToSet\<close>
  enters no node into the visited set twice. The store of the witness is the
  automaton of a star of a star, where nodes 2 and 3 lie on a cycle of epsilon
  edges.
\<close>

theorem match_total:
  assumes "length g < fuel"
  shows "(\<exists>ns'. addNodeToSet fuel g ns n = Some ns' \<and> (distinct ns \<longrightarrow> distinct ns'))
       \<and> (\<exists>b. match fuel (startNode, g) str = Some b)"
proof -
  have "unvisited g ns < fuel" using unvisited_le[of g ns] assms by simp
  from addNodeToSet_grows[OF this, of n] obtain ns' where
    "addNodeToSet fuel g ns n = Some ns'" "grows g {n} ns ns'" by auto
  moreover from match_reach[OF assms, of startNode str] have "\<exists>b. match fuel (startNode, g) str = Some b"
    by auto
  ultimately show ?thesis using grows_distinct by blast
qed

theorem match_total_witness:
  "length [[Edge [] 2], [], [Edge [] 3, Edge [] 1], [Edge ''a'' 3, Edge [] 2]] < 5
   \<and> makeNfa (Star (Star (Atom ''a''))) = (0, [[Edge [] 2], [], [Edge [] 3, Edge [] 1], [Edge ''a'' 3, Edge [] 2]])
   \<and> addNodeToSet 5 [[Edge [] 2], [], [Edge [] 3, Edge [] 1], [Edge ''a'' 3, Edge [] 2]] [] 0 = Some [0, 2, 3, 1]
   \<and> match 5 (0, [[Edge [] 2], [], [Edge [] 3, Edge [] 1], [Edge ''a'' 3, Edge [] 2]]) ''aa'' = Some True"
proof -
  let ?g = "[[Edge [] 2], [], [Edge [] 3, Edge [] 1], [Edge ''a'' 3, Edge [] 2]]"
  have l: "length ?g < 5" by simp
  have n: "makeNfa (Star (Star (Atom ''a''))) = (0, ?g)"
    by (simp add: makeNfa_def push_edge_def)
  have a: "addNodeToSet 5 ?g [] 0 = Some [0, 2, 3, 1]"
    by (simp add: ds_def eval_nat_numeral)
  have m: "match 5 (0, ?g) ''aa'' = Some True"
    by (simp add: match_def ds_def eval_nat_numeral)
  from match_total[OF l, of "[]" 0 0 "''aa''"] l n a m show ?thesis by simp
qed

section \<open>Properties of the construction\<close>

subsection \<open>Trees returned by the parser\<close>

text \<open>
  Every alternation the parser builds has a child and every atom one character;
  simplification keeps this, adds only the epsilon atom, and leaves no sequence
  without children.
\<close>

lemma p_loop_alts_ok:
  "p_loop s i a q n = Inr (j, r) \<Longrightarrow> list_all alts_ok a \<Longrightarrow> list_all alts_ok q \<Longrightarrow>
     (\<And>m. n = Some m \<Longrightarrow> alts_ok m) \<Longrightarrow> alts_ok r"
proof (induction s i a q n arbitrary: j r rule: p_loop_cases_induct)
  case (End s i a q n)
  then show ?case by (simp add: p_loop_end)
next
  case (Open s i a q n)
  from Open.prems(1) Open.hyps obtain j0 m where
    inner: "p_loop s (Suc i) [] [] None = Inr (j0, m)" and
    outer: "p_loop s (Suc j0) a (q @ [m]) (Some m) = Inr (j, r)"
    by (auto simp: p_loop_open split: sum.splits)
  from Open.IH(1)[OF inner] have m: "alts_ok m" by simp
  show ?case by (rule Open.IH(2)[OF inner outer]) (use m Open.prems in auto)
next
  case (Close s i a q n)
  then show ?case by (auto simp: p_loop_close split: if_splits option.splits)
next
  case (Star s i a q n)
  from Star.prems(1) Star.hyps obtain m where nm: "n = Some m" and
    rec: "p_loop s (Suc i) a (if q = [] then q else q[length q - 1 := Star m]) (Some (Star m)) = Inr (j, r)"
    by (auto simp: p_loop_star split: option.splits)
  from Star.prems(4)[OF nm] have m: "alts_ok m" .
  have "list_all alts_ok (if q = [] then q else q[length q - 1 := Star m])"
    using Star.prems(3) m set_update_subset_insert[of q "length q - 1" "Star m"]
    by (auto simp: list_all_iff)
  with Star.IH[OF nm rec Star.prems(2)] m show ?case by simp
next
  case (Bar s i a q n)
  from Bar.prems(1) Bar.hyps have rec: "p_loop s (Suc i) (a @ [Seq q]) [] n = Inr (j, r)"
    by (simp add: p_loop_bar)
  show ?case by (rule Bar.IH[OF rec]) (use Bar.prems in auto)
next
  case (Atom s i a q n)
  from Atom.prems(1) Atom.hyps have
    rec: "p_loop s (Suc i) a (q @ [Atom [s ! i]]) (Some (Atom [s ! i])) = Inr (j, r)"
    by (simp add: p_loop_atom)
  show ?case by (rule Atom.IH[OF rec]) (use Atom.prems in auto)
qed

lemma simplify_alts_ok: "alts_ok t \<Longrightarrow> alts_ok (simplify t)"
proof (induction t rule: simplify.induct)
  case (1 v)
  from 1(1,3) have all: "\<forall>x\<in>set v. alts_ok (simplify x)" by (simp add: list_all_iff)
  show ?case
  proof (cases "length v = 1")
    case True
    then obtain x where v: "v = [x]" by (cases v) auto
    with all have "alts_ok (simplify x)" by simp
    with 1(2)[OF refl] v show ?thesis by simp
  next
    case False
    with all show ?thesis by (auto simp: list_all_iff)
  qed
next
  case (2 v)
  then show ?case by (auto simp: list_all_iff)
next
  case (3 v)
  then show ?case by (cases "simplify v") auto
next
  case (4 v)
  then show ?case by simp
qed

lemma simplified_buildable: "simplified t \<Longrightarrow> alts_ok t \<Longrightarrow> buildable t"
  by (induction t) (auto simp: list_all_iff)

lemma parse_buildable:
  assumes "parse s = Inr ast"
  shows "buildable ast"
proof -
  from assms obtain j r where r: "p_loop (s @ '')'') 0 [] [] None = Inr (j, r)"
    and ast: "ast = simplify r"
    by (auto simp: parse_def p_def Let_def split: sum.splits if_splits)
  from p_loop_alts_ok[OF r] have "alts_ok r" by simp
  then have "alts_ok ast" unfolding ast by (rule simplify_alts_ok)
  moreover have "simplified ast" unfolding ast by (rule simplified_simplify)
  ultimately show ?thesis by (intro simplified_buildable)
qed

subsection \<open>Out-degrees\<close>

text \<open>
  Building a tree between \<open>start\<close> and \<open>endN\<close> gives \<open>start\<close> an edge, gives every
  node it allocates an edge, and touches no other node: in particular not
  \<open>endN\<close>, unless it is \<open>start\<close> itself.
\<close>

lemma extI:
  assumes "length g \<le> length g'"
    and "\<And>n. n < length g \<Longrightarrow> n \<notin> M \<Longrightarrow> g' ! n = g ! n"
    and "\<And>n. n < length g \<Longrightarrow> g ! n \<noteq> [] \<Longrightarrow> g' ! n \<noteq> []"
    and "\<And>n. length g \<le> n \<Longrightarrow> n < length g' \<Longrightarrow> g' ! n \<noteq> []"
  shows "ext g M g'"
  unfolding ext_def using assms by auto

lemma ext_length: "ext g M g' \<Longrightarrow> length g \<le> length g'"
  by (simp add: ext_def)

lemma ext_frame: "ext g M g' \<Longrightarrow> n < length g \<Longrightarrow> n \<notin> M \<Longrightarrow> g' ! n = g ! n"
  by (simp add: ext_def)

lemma ext_mono: "ext g M g' \<Longrightarrow> n < length g \<Longrightarrow> g ! n \<noteq> [] \<Longrightarrow> g' ! n \<noteq> []"
  by (simp add: ext_def)

lemma ext_fresh: "ext g M g' \<Longrightarrow> length g \<le> n \<Longrightarrow> n < length g' \<Longrightarrow> g' ! n \<noteq> []"
  by (simp add: ext_def)

lemma ext_refl: "ext g M g"
  by (rule extI) simp_all

lemma ext_trans:
  assumes 1: "ext g M1 g1" and 2: "ext g1 M2 g2"
  shows "ext g (M1 \<union> M2) g2"
proof (rule extI)
  show "length g \<le> length g2" using ext_length[OF 1] ext_length[OF 2] by simp
next
  fix n assume n: "n < length g" "n \<notin> M1 \<union> M2"
  with ext_length[OF 1] have "n < length g1" by simp
  with n ext_frame[OF 2, of n] ext_frame[OF 1, of n] show "g2 ! n = g ! n" by simp
next
  fix n assume n: "n < length g" "g ! n \<noteq> []"
  with ext_length[OF 1] have "n < length g1" by simp
  with n ext_mono[OF 1, of n] ext_mono[OF 2, of n] show "g2 ! n \<noteq> []" by simp
next
  fix n assume n: "length g \<le> n" "n < length g2"
  show "g2 ! n \<noteq> []"
  proof (cases "n < length g1")
    case True
    with ext_fresh[OF 1 n(1)] ext_mono[OF 2, of n] show ?thesis by simp
  next
    case False
    with ext_fresh[OF 2, of n] n show ?thesis by simp
  qed
qed

lemma length_push_edge [simp]: "length (push_edge n e g) = length g"
  by (simp add: push_edge_def)

lemma nth_push_edge:
  "k < length g \<Longrightarrow> push_edge n e g ! k = (if k = n then g ! n @ [e] else g ! k)"
  by (simp add: push_edge_def)

lemma ext_push: "ext g {n} (push_edge n e g)"
  by (rule extI) (auto simp: nth_push_edge)

lemma makeEdge_ext:
  "buildable ast \<Longrightarrow> start < length g \<Longrightarrow> endN < length g \<Longrightarrow>
     ext g {start} (makeEdge ast start endN g) \<and> makeEdge ast start endN g ! start \<noteq> []"
  "list_all buildable v \<Longrightarrow> length nextNodes = length v \<Longrightarrow> lastN < length g1 \<Longrightarrow>
     \<forall>n\<in>set nextNodes. n < length g1 \<Longrightarrow>
     ext g1 ({lastN} \<union> set (butlast nextNodes)) (makeEdge_seq v nextNodes lastN g1)
     \<and> (v \<noteq> [] \<longrightarrow> (\<forall>n\<in>{lastN} \<union> set (butlast nextNodes). makeEdge_seq v nextNodes lastN g1 ! n \<noteq> []))"
  "list_all buildable w \<Longrightarrow> start' < length g2 \<Longrightarrow> endN' < length g2 \<Longrightarrow>
     ext g2 {start'} (makeEdge_alt w start' endN' g2)
     \<and> (w \<noteq> [] \<longrightarrow> makeEdge_alt w start' endN' g2 ! start' \<noteq> [])"
proof (induction ast start endN g and v nextNodes lastN g1 and w start' endN' g2
    rule: makeEdge_makeEdge_seq_makeEdge_alt.induct)
  case (1 v start endN g)
  define k where "k = length v - 1"
  define nextNodes where "nextNodes = [length g ..< length g + k] @ [endN]"
  define g1 where "g1 = g @ replicate k ([] :: edge list)"
  define g' where "g' = makeEdge_seq v nextNodes start g1"
  have res: "makeEdge (Seq v) start endN g = g'"
    by (simp add: g'_def g1_def nextNodes_def k_def)
  from "1.prems" have v: "v \<noteq> []" "list_all buildable v" by simp_all
  then have len: "length nextNodes = length v" by (cases v) (simp_all add: nextNodes_def k_def)
  have bl: "butlast nextNodes = [length g ..< length g + k]" by (simp add: nextNodes_def)
  have l1: "length g1 = length g + k" by (simp add: g1_def)
  have "ext g1 ({start} \<union> set (butlast nextNodes)) g'
     \<and> (v \<noteq> [] \<longrightarrow> (\<forall>n\<in>{start} \<union> set (butlast nextNodes). g' ! n \<noteq> []))"
    unfolding g'_def
    by (rule "1.IH"[OF _ _ v(2) len, unfolded k_def[symmetric]])
       (use "1.prems" in \<open>auto simp: nextNodes_def g1_def k_def\<close>)
  with v have e1: "ext g1 ({start} \<union> set (butlast nextNodes)) g'"
    and ne: "\<And>n. n \<in> {start} \<union> set (butlast nextNodes) \<Longrightarrow> g' ! n \<noteq> []" by auto
  have "ext g {start} g'"
  proof (rule extI)
    show "length g \<le> length g'" using ext_length[OF e1] l1 by simp
  next
    fix n assume n: "n < length g" "n \<notin> {start}"
    then have "n \<notin> {start} \<union> set (butlast nextNodes)" by (simp add: bl)
    with ext_frame[OF e1, of n] n l1 have "g' ! n = g1 ! n" by simp
    with n show "g' ! n = g ! n" by (simp add: g1_def nth_append)
  next
    fix n assume n: "n < length g" "g ! n \<noteq> []"
    then have "g1 ! n \<noteq> []" by (simp add: g1_def nth_append)
    with ext_mono[OF e1, of n] n l1 show "g' ! n \<noteq> []" by simp
  next
    fix n assume n: "length g \<le> n" "n < length g'"
    show "g' ! n \<noteq> []"
    proof (cases "n < length g1")
      case True
      with n l1 have "n \<in> set (butlast nextNodes)" by (simp add: bl)
      then show ?thesis by (intro ne) simp
    next
      case False
      with ext_fresh[OF e1, of n] n show ?thesis by simp
    qed
  qed
  moreover have "g' ! start \<noteq> []" by (intro ne) simp
  ultimately show ?case unfolding res by simp
next
  case (2 v start endN g)
  then show ?case by simp
next
  case (3 v start endN g)
  define m where "m = length g"
  define g1 where "g1 = g @ [[] :: edge list]"
  define g2 where "g2 = push_edge start (Edge [] m) g1"
  define g3 where "g3 = makeEdge v m m g2"
  define g' where "g' = push_edge m (Edge [] endN) g3"
  have res: "makeEdge (Star v) start endN g = g'"
    by (simp add: g'_def g3_def g2_def g1_def m_def Let_def)
  have l2: "length g2 = Suc (length g)" by (simp add: g2_def g1_def)
  from "3.prems" have b: "buildable v" by simp
  have "ext g2 {m} g3 \<and> g3 ! m \<noteq> []"
    unfolding g3_def
    by (rule "3.IH"[OF _ _ _ b, unfolded m_def[symmetric] g1_def[symmetric] g2_def[symmetric]])
       (simp_all add: l2 m_def g1_def g2_def)
  then have e3: "ext g2 {m} g3" by simp
  have l3: "length g2 \<le> length g3" by (rule ext_length[OF e3])
  have s2: "g2 ! start \<noteq> []" using "3.prems" by (simp add: g2_def g1_def nth_push_edge)
  have "ext g {start} g'"
  proof (rule extI)
    show "length g \<le> length g'" using l3 l2 by (simp add: g'_def)
  next
    fix n assume n: "n < length g" "n \<notin> {start}"
    then have "g' ! n = g3 ! n" using l3 l2 by (simp add: g'_def nth_push_edge m_def)
    also have "g3 ! n = g2 ! n" using n l2 by (intro ext_frame[OF e3]) (simp_all add: m_def)
    also have "g2 ! n = g ! n" using n by (simp add: g2_def g1_def nth_push_edge nth_append)
    finally show "g' ! n = g ! n" .
  next
    fix n assume n: "n < length g" "g ! n \<noteq> []"
    then have "g2 ! n \<noteq> []" by (simp add: g2_def g1_def nth_push_edge nth_append)
    with ext_mono[OF e3, of n] n l2 have "g3 ! n \<noteq> []" by simp
    with n l2 l3 show "g' ! n \<noteq> []" by (simp add: g'_def nth_push_edge)
  next
    fix n assume n: "length g \<le> n" "n < length g'"
    then have n3: "n < length g3" by (simp add: g'_def)
    show "g' ! n \<noteq> []"
    proof (cases "n = m")
      case True
      with n3 show ?thesis by (simp add: g'_def nth_push_edge)
    next
      case False
      with n l2 have "length g2 \<le> n" by (simp add: m_def)
      from ext_fresh[OF e3 this n3] False n3 show ?thesis by (simp add: g'_def nth_push_edge)
    qed
  qed
  moreover have "g' ! start \<noteq> []"
  proof -
    from "3.prems" l2 have "start < length g2" by simp
    from ext_mono[OF e3 this s2] have "g3 ! start \<noteq> []" .
    with \<open>start < length g2\<close> l3 show ?thesis by (simp add: g'_def nth_push_edge)
  qed
  ultimately show ?case unfolding res by simp
next
  case (4 v start endN g)
  then show ?case by (simp add: ext_push nth_push_edge)
next
  case (5 astChild v x nextNodes lastN g)
  define g1 where "g1 = makeEdge astChild lastN x g"
  define g' where "g' = makeEdge_seq v nextNodes x g1"
  have res: "makeEdge_seq (astChild # v) (x # nextNodes) lastN g = g'"
    by (simp add: g'_def g1_def)
  from "5.prems" have b: "buildable astChild" "list_all buildable v"
    and len: "length nextNodes = length v" and x: "x < length g"
    and ns: "\<forall>n\<in>set nextNodes. n < length g" by simp_all
  from "5.IH"(1)[OF b(1) "5.prems"(3) x] have e1: "ext g {lastN} g1" and l1: "g1 ! lastN \<noteq> []"
    by (simp_all add: g1_def)
  have lg: "length g \<le> length g1" by (rule ext_length[OF e1])
  have "ext g1 ({x} \<union> set (butlast nextNodes)) g'
      \<and> (v \<noteq> [] \<longrightarrow> (\<forall>n\<in>{x} \<union> set (butlast nextNodes). g' ! n \<noteq> []))"
    unfolding g'_def g1_def
    by (rule "5.IH"(2)[OF b(2) len]) (use x ns lg in \<open>auto simp: g1_def\<close>)
  then have e2: "ext g1 ({x} \<union> set (butlast nextNodes)) g'"
    and ne: "\<And>n. v \<noteq> [] \<Longrightarrow> n \<in> {x} \<union> set (butlast nextNodes) \<Longrightarrow> g' ! n \<noteq> []" by auto
  have e: "ext g ({lastN} \<union> ({x} \<union> set (butlast nextNodes))) g'" by (rule ext_trans[OF e1 e2])
  have last: "g' ! lastN \<noteq> []" using ext_mono[OF e2, of lastN] l1 "5.prems"(3) lg by simp
  show ?case
  proof (cases v)
    case Nil
    with len have nn: "nextNodes = []" by simp
    with Nil have "g' = g1" by (simp add: g'_def)
    with e1 l1 nn show ?thesis unfolding res by simp
  next
    case (Cons c cs)
    with len have "nextNodes \<noteq> []" by auto
    then have bl: "butlast (x # nextNodes) = x # butlast nextNodes" by simp
    have "{lastN} \<union> set (butlast (x # nextNodes)) = {lastN} \<union> ({x} \<union> set (butlast nextNodes))"
      unfolding bl by auto
    with e last ne[of _] Cons show ?thesis unfolding res by auto
  qed
next
  case (6 nextNodes lastN g)
  show ?case by (simp add: ext_refl)
next
  case (7 astChild v lastN g)
  then show ?case by simp
next
  case (8 start endN g)
  show ?case by (simp add: ext_refl)
next
  case (9 n v start endN g)
  define g1 where "g1 = makeEdge n start endN g"
  from "9.prems" have b: "buildable n" "list_all buildable v" by simp_all
  from "9.IH"(1)[OF b(1) "9.prems"(2,3)] have e1: "ext g {start} g1" and s1: "g1 ! start \<noteq> []"
    by (simp_all add: g1_def)
  have lg: "length g \<le> length g1" by (rule ext_length[OF e1])
  have e2: "ext g1 {start} (makeEdge_alt v start endN g1)"
    using "9.IH"(2)[OF b(2)] "9.prems"(2,3) lg by (simp add: g1_def)
  from ext_trans[OF e1 e2] have "ext g {start} (makeEdge_alt v start endN g1)" by simp
  moreover have "makeEdge_alt v start endN g1 ! start \<noteq> []"
    using ext_mono[OF e2, of start] s1 "9.prems"(2) lg by simp
  ultimately show ?case by (simp add: g1_def)
qed

subsection \<open>The end node is reached\<close>

text \<open>
  Edges are never removed, so a walk found after one step of the construction
  is still there at the end; and building a tree between \<open>start\<close> and \<open>endN\<close>
  lays a walk from the one to the other.
\<close>

lemma keeps_refl: "keeps g g"
  by (simp add: keeps_def)

lemma keeps_trans: "keeps g g1 \<Longrightarrow> keeps g1 g2 \<Longrightarrow> keeps g g2"
  unfolding keeps_def
proof (intro conjI allI impI)
  assume h: "length g \<le> length g1 \<and> (\<forall>n<length g. \<exists>es. g1 ! n = g ! n @ es)"
    "length g1 \<le> length g2 \<and> (\<forall>n<length g1. \<exists>es. g2 ! n = g1 ! n @ es)"
  then show "length g \<le> length g2" by simp
  fix n assume n: "n < length g"
  with h obtain es where 1: "g1 ! n = g ! n @ es" by blast
  from n h have "n < length g1" by simp
  with h obtain es' where "g2 ! n = g1 ! n @ es'" by blast
  with 1 show "\<exists>es. g2 ! n = g ! n @ es" by simp
qed

lemma keeps_append: "keeps g (g @ xs)"
  by (simp add: keeps_def nth_append)

lemma keeps_push: "keeps g (push_edge n e g)"
  by (simp add: keeps_def nth_push_edge)

lemma keeps_length: "keeps g g' \<Longrightarrow> length g \<le> length g'"
  by (simp add: keeps_def)

lemma keeps_ds: "keeps g g' \<Longrightarrow> set (ds g n) \<subseteq> set (ds g' n)"
  unfolding keeps_def ds_def by (cases "n < length g") fastforce+

lemma makeEdge_keeps:
  "keeps g (makeEdge ast start endN g)"
  "keeps g1 (makeEdge_seq v nextNodes lastN g1)"
  "keeps g2 (makeEdge_alt w start' endN' g2)"
proof (induction ast start endN g and v nextNodes lastN g1 and w start' endN' g2
    rule: makeEdge_makeEdge_seq_makeEdge_alt.induct)
  case (1 v start endN g)
  have "keeps g (g @ replicate (length v - 1) [])" by (rule keeps_append)
  from keeps_trans[OF this "1.IH"[OF refl refl]] show ?case by simp
next
  case (2 v start endN g)
  then show ?case by simp
next
  case (3 v start endN g)
  have "keeps g (push_edge start (Edge [] (length g)) (g @ [[]]))"
    by (rule keeps_trans[OF keeps_append keeps_push])
  from keeps_trans[OF keeps_trans[OF this "3.IH"[OF refl refl refl]] keeps_push]
  show ?case by (simp add: Let_def)
next
  case (4 v start endN g)
  show ?case by (simp add: keeps_push)
next
  case (5 astChild v x nextNodes lastN g)
  from keeps_trans[OF "5.IH"(1) "5.IH"(2)] show ?case by simp
next
  case (9 n v start endN g)
  from keeps_trans[OF "9.IH"(1) "9.IH"(2)] show ?case by simp
qed (simp_all add: keeps_refl)

lemma path_keeps: "path g u w r \<Longrightarrow> keeps g g' \<Longrightarrow> path g' u w r"
proof (induction rule: path.induct)
  case (path_nil u)
  show ?case by (rule path.path_nil)
next
  case (path_eps q u w r)
  with keeps_ds[of g g' u] show ?case by (auto intro: path.path_eps)
next
  case (path_chr c q u w r)
  with keeps_ds[of g g' u] show ?case by (auto intro: path.path_chr)
qed

lemma path_push:
  assumes "n < length g" "length l \<le> 1"
  shows "\<exists>w. path (push_edge n (Edge l t) g) n w t"
proof -
  have e: "Edge l t \<in> set (ds (push_edge n (Edge l t) g) n)"
    using assms by (simp add: ds_def nth_push_edge)
  show ?thesis
  proof (cases l)
    case Nil
    with e have "path (push_edge n (Edge l t) g) n [] t"
      by (intro path_eps[OF _ path_nil]) simp
    then show ?thesis ..
  next
    case (Cons c cs)
    with assms have "l = [c]" by simp
    with e have "path (push_edge n (Edge l t) g) n [c] t"
      by (intro path_chr[OF _ path_nil]) simp
    then show ?thesis ..
  qed
qed

lemma makeEdge_path:
  "buildable ast \<Longrightarrow> start < length g \<Longrightarrow> endN < length g \<Longrightarrow>
     \<exists>w. path (makeEdge ast start endN g) start w endN"
  "list_all buildable v \<Longrightarrow> length nextNodes = length v \<Longrightarrow> v \<noteq> [] \<Longrightarrow> lastN < length g1 \<Longrightarrow>
     \<forall>n\<in>set nextNodes. n < length g1 \<Longrightarrow>
     \<exists>w. path (makeEdge_seq v nextNodes lastN g1) lastN w (last nextNodes)"
  "list_all buildable w \<Longrightarrow> w \<noteq> [] \<Longrightarrow> start' < length g2 \<Longrightarrow> endN' < length g2 \<Longrightarrow>
     \<exists>x. path (makeEdge_alt w start' endN' g2) start' x endN'"
proof (induction ast start endN g and v nextNodes lastN g1 and w start' endN' g2
    rule: makeEdge_makeEdge_seq_makeEdge_alt.induct)
  case (1 v start endN g)
  from "1.prems" have v: "v \<noteq> []" "list_all buildable v" by simp_all
  define nextNodes where "nextNodes = [length g ..< length g + (length v - 1)] @ [endN]"
  define g1 where "g1 = g @ replicate (length v - 1) ([] :: edge list)"
  from v(1) have l: "1 \<le> length v" by (cases v) simp_all
  have "\<exists>w. path (makeEdge_seq v nextNodes start g1) start w (last nextNodes)"
    unfolding nextNodes_def g1_def
    by (rule "1.IH"[OF refl refl v(2) _ v(1)]) (use "1.prems" l in auto)
  then show ?case by (simp add: nextNodes_def g1_def)
next
  case (2 v start endN g)
  then show ?case by simp
next
  case (3 v start endN g)
  define m where "m = length g"
  define g2 where "g2 = push_edge start (Edge [] m) (g @ [[]])"
  define g3 where "g3 = makeEdge v m m g2"
  define g' where "g' = push_edge m (Edge [] endN) g3"
  have res: "makeEdge (Star v) start endN g = g'"
    by (simp add: g'_def g3_def g2_def m_def Let_def)
  have "start < length (g @ [[]])" using "3.prems" by simp
  from path_push[OF this, of "[]" m] have "\<exists>w. path g2 start w m" by (simp add: g2_def)
  moreover have k: "keeps g2 g'" unfolding g'_def g3_def
    by (rule keeps_trans[OF makeEdge_keeps(1) keeps_push])
  ultimately obtain w1 where 1: "path g' start w1 m" using path_keeps by blast
  have "m < length g3" using keeps_length[OF makeEdge_keeps(1), of g2 v m m]
    by (simp add: g3_def g2_def m_def)
  from path_push[OF this, of "[]" endN] obtain w2 where "path g' m w2 endN" by (auto simp: g'_def)
  from path_append[OF 1 this] show ?case unfolding res by blast
next
  case (4 v start endN g)
  then show ?case using path_push[of start g v endN] by simp
next
  case (5 astChild v x nextNodes lastN g)
  define g1 where "g1 = makeEdge astChild lastN x g"
  define g' where "g' = makeEdge_seq v nextNodes x g1"
  have res: "makeEdge_seq (astChild # v) (x # nextNodes) lastN g = g'"
    by (simp add: g'_def g1_def)
  from "5.prems" have b: "buildable astChild" "list_all buildable v"
    and len: "length nextNodes = length v" and x: "x < length g"
    and ns: "\<forall>n\<in>set nextNodes. n < length g" by simp_all
  from "5.IH"(1)[OF b(1) "5.prems"(4) x] obtain w1 where "path g1 lastN w1 x" by (auto simp: g1_def)
  moreover have "keeps g1 g'" unfolding g'_def by (rule makeEdge_keeps(2))
  ultimately have 1: "path g' lastN w1 x" by (rule path_keeps)
  have lg: "length g \<le> length g1" unfolding g1_def by (rule keeps_length[OF makeEdge_keeps(1)])
  show ?case
  proof (cases v)
    case Nil
    with len have "nextNodes = []" by simp
    with 1 show ?thesis unfolding res by auto
  next
    case (Cons c cs)
    with len have nn: "nextNodes \<noteq> []" by auto
    have "\<exists>w. path g' x w (last nextNodes)"
      unfolding g'_def g1_def
      by (rule "5.IH"(2)[OF b(2) len]) (use Cons x ns lg in \<open>auto simp: g1_def\<close>)
    then obtain w2 where "path g' x w2 (last nextNodes)" by auto
    from path_append[OF 1 this] nn show ?thesis unfolding res by auto
  qed
next
  case (6 nextNodes lastN g)
  then show ?case by simp
next
  case (7 astChild v lastN g)
  then show ?case by simp
next
  case (8 start endN g)
  then show ?case by simp
next
  case (9 n v start endN g)
  from "9.prems" have b: "buildable n" by simp
  from "9.IH"(1)[OF b "9.prems"(3,4)] obtain w1 where "path (makeEdge n start endN g) start w1 endN"
    by auto
  from path_keeps[OF this makeEdge_keeps(3)] show ?case by auto
qed

text \<open>
  C5. For every tree returned by \<^verbatim>\<open>parse\<close>, the automaton that \<^verbatim>\<open>makeNfa\<close> builds
  has exactly one node without outgoing edges: node 1, the end node allocated by
  \<^verbatim>\<open>makeNfa\<close> itself. The start node is node 0, every other node (the
  intermediate nodes of sequences and the middle nodes of stars) has an outgoing
  edge, and the end node is reached from the start node.
\<close>

theorem makeNfa_single_sink:
  assumes "parse pat = Inr ast" and "makeNfa ast = (startNode, g)"
  shows "startNode = 0 \<and> 2 \<le> length g
       \<and> (\<forall>n<length g. (length (ds g n) = 0) = (n = 1))
       \<and> (\<exists>w. path g startNode w 1)"
proof -
  from assms(2) have s: "startNode = 0" and g: "g = makeEdge ast 0 1 [[], []]"
    by (simp_all add: makeNfa_def)
  from parse_buildable[OF assms(1)] have b: "buildable ast" .
  from makeEdge_ext(1)[OF b, of 0 "[[], []]" 1] have e: "ext [[], []] {0} g" and g0: "g ! 0 \<noteq> []"
    by (simp_all add: g)
  from ext_length[OF e] have l: "2 \<le> length g" by simp
  have "(length (ds g n) = 0) = (n = 1)" if n: "n < length g" for n
  proof -
    consider "n = 0" | "n = 1" | "2 \<le> n" by linarith
    then show ?thesis
    proof cases
      case 1
      with g0 n show ?thesis by (simp add: ds_def)
    next
      case 2
      with ext_frame[OF e, of 1] n show ?thesis by (simp add: ds_def)
    next
      case 3
      with ext_fresh[OF e, of n] n show ?thesis by (simp add: ds_def)
    qed
  qed
  moreover from makeEdge_path(1)[OF b, of 0 "[[], []]" 1] have "\<exists>w. path g 0 w 1" by (simp add: g)
  ultimately show ?thesis using s l by simp
qed

theorem makeNfa_single_sink_witness:
  "parse ''a(b|c)d*'' = Inr (Seq [Atom ''a'', Alt [Atom ''b'', Atom ''c''], Star (Atom ''d'')])
   \<and> makeNfa (Seq [Atom ''a'', Alt [Atom ''b'', Atom ''c''], Star (Atom ''d'')])
       = (0, [[Edge ''a'' 2], [], [Edge ''b'' 3, Edge ''c'' 3], [Edge [] 4], [Edge ''d'' 4, Edge [] 1]])
   \<and> length (ds [[Edge ''a'' 2], [], [Edge ''b'' 3, Edge ''c'' 3], [Edge [] 4], [Edge ''d'' 4, Edge [] 1]] 1) = 0
   \<and> length (ds [[Edge ''a'' 2], [], [Edge ''b'' 3, Edge ''c'' 3], [Edge [] 4], [Edge ''d'' 4, Edge [] 1]] 3) \<noteq> 0
   \<and> (\<exists>w. path [[Edge ''a'' 2], [], [Edge ''b'' 3, Edge ''c'' 3], [Edge [] 4], [Edge ''d'' 4, Edge [] 1]] 0 w 1)"
proof -
  let ?ast = "Seq [Atom ''a'', Alt [Atom ''b'', Atom ''c''], Star (Atom ''d'')]"
  let ?g = "[[Edge ''a'' 2], [], [Edge ''b'' 3, Edge ''c'' 3], [Edge [] 4], [Edge ''d'' 4, Edge [] 1]]"
  have p: "parse ''a(b|c)d*'' = Inr ?ast"
    by (simp add: parse_def p_def p_loop.simps)
  have n: "makeNfa ?ast = (0, ?g)"
    by (simp add: makeNfa_def push_edge_def upt_rec)
  from makeNfa_single_sink[OF p n] have
    "\<forall>n<length ?g. (length (ds ?g n) = 0) = (n = 1)" and w: "\<exists>w. path ?g 0 w 1" by blast+
  then have "(length (ds ?g 1) = 0) = (1 = (1::nat))" "(length (ds ?g 3) = 0) = (3 = (1::nat))"
    by simp_all
  with p n w show ?thesis by simp
qed

end
